theory Spec2Isabelle
  imports Main "HOL-Library.Word"
begin

section \<open>Memory model\<close>

text \<open>
  The containers of \<^verbatim>\<open>vector-allocation-benchmarks.cpp\<close> keep raw pointers \<^verbatim>\<open>T*\<close> into
  arrays created by \<^verbatim>\<open>new T[n]\<close>, and several pointers may point into the same array
  (the pool allocator carves one buffer into many chunks). The store is therefore
  explicit: a heap is the list of the arrays created so far, an array is the list of its
  cells, and a cell is \<open>None\<close> until it is written (\<^verbatim>\<open>new T[n]\<close> leaves the elements of
  an \<^verbatim>\<open>int\<close> array uninitialised). A pointer names an array and an element position in
  it. \<^verbatim>\<open>size_t\<close> is the 64-bit unsigned integer, whose arithmetic wraps around.

  What C++ leaves undefined is an error value of the model: a read or write outside the
  array the pointer was derived from, a read of a cell never written, a division by
  zero, \<^verbatim>\<open>back()\<close> of an empty vector. Forming a pointer by arithmetic is always defined
  in the model; only its use is checked. \<^verbatim>\<open>new\<close> is taken to succeed (the heap is
  unbounded), so every array that exists has fewer than \<open>2 ^ 63\<close> elements only by
  hypothesis, where a theorem needs it.
\<close>

type_synonym size_t = "64 word"

datatype error = OutOfBounds | Uninitialized | DivisionByZero

datatype ptr = Ptr (block: nat) (offs: nat)

type_synonym 'a heap = "'a option list list"

definition new_array :: "nat \<Rightarrow> 'a heap \<Rightarrow> ptr \<times> 'a heap" where
  "new_array n h = (Ptr (length h) 0, h @ [replicate n None])"

definition ptr_add :: "ptr \<Rightarrow> nat \<Rightarrow> ptr" where
  "ptr_add p k = Ptr (block p) (offs p + k)"

definition in_bounds :: "'a heap \<Rightarrow> ptr \<Rightarrow> bool" where
  "in_bounds h p = (block p < length h \<and> offs p < length (h ! block p))"

definition store :: "ptr \<Rightarrow> 'a \<Rightarrow> 'a heap \<Rightarrow> error + 'a heap" where
  "store p val h =
     (if in_bounds h p
      then Inr (h[block p := (h ! block p)[offs p := Some val]])
      else Inl OutOfBounds)"

definition load :: "ptr \<Rightarrow> 'a heap \<Rightarrow> error + 'a" where
  "load p h =
     (if in_bounds h p
      then (case h ! block p ! offs p of None \<Rightarrow> Inl Uninitialized | Some val \<Rightarrow> Inr val)
      else Inl OutOfBounds)"

section \<open>PoolAllocator\<close>

text \<open>
  \<^verbatim>\<open>
  std::vector<T*> buffers;
  size_t capacity; // this is how many element we can store
  size_t offset;   // this is how many we already use
  PoolAllocator(size_t cap) : capacity(cap), offset(0) { buffers.push_back(new T[cap]); }
  T* allocate(size_t n) {
      if (offset + n > capacity) { buffers.push_back(new T[capacity]); offset = 0; }
      T* ptr = buffers.back() + offset;
      offset += n;
      return ptr;
  }
  \<close>
  The allocator is a record of its three fields; the buffers live in the heap, which
  every operation takes and returns. The destructor, which deletes every buffer, is
  left out.
\<close>

record PoolAllocator =
  buffers :: "ptr list"
  capacity :: size_t
  offset :: size_t

definition PoolAllocator_init :: "size_t \<Rightarrow> 'a heap \<Rightarrow> PoolAllocator \<times> 'a heap" where
  "PoolAllocator_init cap h =
     (let (p, h') = new_array (unat cap) h
      in (\<lparr>buffers = [p], capacity = cap, offset = 0\<rparr>, h'))"

definition allocate ::
  "size_t \<Rightarrow> PoolAllocator \<Rightarrow> 'a heap \<Rightarrow> error + (ptr \<times> PoolAllocator \<times> 'a heap)" where
  "allocate n a h =
     (let (a1, h1) =
            (if capacity a < offset a + n
             then (let (p, h') = new_array (unat (capacity a)) h
                   in (a\<lparr>buffers := buffers a @ [p], offset := 0\<rparr>, h'))
             else (a, h))
      in if buffers a1 = [] then Inl OutOfBounds
         else Inr (ptr_add (last (buffers a1)) (unat (offset a1)),
                   a1\<lparr>offset := offset a1 + n\<rparr>, h1))"

text \<open>A sequence of \<^verbatim>\<open>allocate\<close> calls, returning the carves in call order.\<close>

fun allocate_all ::
  "size_t list \<Rightarrow> PoolAllocator \<Rightarrow> 'a heap \<Rightarrow> error + (ptr list \<times> PoolAllocator \<times> 'a heap)" where
  "allocate_all [] a h = Inr ([], a, h)"
| "allocate_all (n # ns) a h =
     (case allocate n a h of
        Inl e \<Rightarrow> Inl e
      | Inr (p, a', h') \<Rightarrow>
          (case allocate_all ns a' h' of
             Inl e \<Rightarrow> Inl e
           | Inr (ps, a'', h'') \<Rightarrow> Inr (p # ps, a'', h'')))"

section \<open>ChunkedVector\<close>

text \<open>
  \<^verbatim>\<open>
  template<typename T, size_t CHUNK_SIZE = 64> class ChunkedVector {
      std::vector<T*> chunks;
      size_t size = 0;
      void push_back(const T& value) {
          if (size % CHUNK_SIZE == 0) chunks.push_back(new T[CHUNK_SIZE]);
          chunks[size / CHUNK_SIZE][size % CHUNK_SIZE] = value;
          size++;
      }
      T& operator[](size_t index) { return chunks[index / CHUNK_SIZE][index % CHUNK_SIZE]; }
      size_t get_size() const { return size; }
  };
  \<close>
  The template parameter \<^verbatim>\<open>CHUNK_SIZE\<close> is the first argument of each operation; the
  destructor, which frees the chunks, is left out (no claim is about a destroyed
  container). The
  element \<^verbatim>\<open>chunks[index / CHUNK_SIZE][index % CHUNK_SIZE]\<close>, which both operations of
  both containers address, is \<open>elem_ptr\<close>: the subscript of the \<^verbatim>\<open>std::vector\<close> is
  undefined outside the vector, the subscript of the chunk is pointer arithmetic.
\<close>

definition DEFAULT_CHUNK_SIZE :: size_t where
  "DEFAULT_CHUNK_SIZE = 64"

definition elem_ptr :: "size_t \<Rightarrow> ptr list \<Rightarrow> size_t \<Rightarrow> error + ptr" where
  "elem_ptr CHUNK_SIZE chs index =
     (if CHUNK_SIZE = 0 then Inl DivisionByZero
      else if unat (index div CHUNK_SIZE) < length chs
      then Inr (ptr_add (chs ! unat (index div CHUNK_SIZE)) (unat (index mod CHUNK_SIZE)))
      else Inl OutOfBounds)"

record ChunkedVector =
  chunks :: "ptr list"
  size_v :: size_t

definition ChunkedVector_init :: ChunkedVector where
  "ChunkedVector_init = \<lparr>chunks = [], size_v = 0\<rparr>"

definition push_back ::
  "size_t \<Rightarrow> 'a \<Rightarrow> ChunkedVector \<Rightarrow> 'a heap \<Rightarrow> error + (ChunkedVector \<times> 'a heap)" where
  "push_back CHUNK_SIZE val v h =
     (if CHUNK_SIZE = 0 then Inl DivisionByZero
      else
        let (v1, h1) =
              (if size_v v mod CHUNK_SIZE = 0
               then (let (p, h') = new_array (unat CHUNK_SIZE) h
                     in (v\<lparr>chunks := chunks v @ [p]\<rparr>, h'))
               else (v, h))
        in (case elem_ptr CHUNK_SIZE (chunks v1) (size_v v) of
              Inl e \<Rightarrow> Inl e
            | Inr q \<Rightarrow>
                (case store q val h1 of
                   Inl e \<Rightarrow> Inl e
                 | Inr h2 \<Rightarrow> Inr (v1\<lparr>size_v := size_v v + 1\<rparr>, h2))))"

definition subscript :: "size_t \<Rightarrow> size_t \<Rightarrow> ChunkedVector \<Rightarrow> 'a heap \<Rightarrow> error + 'a" where
  "subscript CHUNK_SIZE index v h =
     (case elem_ptr CHUNK_SIZE (chunks v) index of Inl e \<Rightarrow> Inl e | Inr q \<Rightarrow> load q h)"

definition get_size :: "ChunkedVector \<Rightarrow> size_t" where
  "get_size v = size_v v"

text \<open>A sequence of \<^verbatim>\<open>push_back\<close> calls, in call order.\<close>

fun push_back_all ::
  "size_t \<Rightarrow> 'a list \<Rightarrow> ChunkedVector \<Rightarrow> 'a heap \<Rightarrow> error + (ChunkedVector \<times> 'a heap)" where
  "push_back_all CHUNK_SIZE [] v h = Inr (v, h)"
| "push_back_all CHUNK_SIZE (x # xs) v h =
     (case push_back CHUNK_SIZE x v h of
        Inl e \<Rightarrow> Inl e
      | Inr (v', h') \<Rightarrow> push_back_all CHUNK_SIZE xs v' h')"

section \<open>ChunkedVectorPoolAllocation\<close>

text \<open>
  \<^verbatim>\<open>
  template<typename T, size_t CHUNK_SIZE = 64> class ChunkedVectorPoolAllocation {
      std::vector<T*> chunks;
      size_t size = 0;
      PoolAllocator<T> allocator{ 2048 };
      void push_back(const T& value) {
          if (size % CHUNK_SIZE == 0) chunks.push_back(allocator.allocate(CHUNK_SIZE));
          chunks[size / CHUNK_SIZE][size % CHUNK_SIZE] = value;
          size++;
      }
      T& operator[](size_t index) { return chunks[index / CHUNK_SIZE][index % CHUNK_SIZE]; }
      size_t get_size() const { return size; }
  };
  \<close>
\<close>

record ChunkedVectorPoolAllocation =
  chunks_pa :: "ptr list"
  size_pa :: size_t
  allocator :: PoolAllocator

definition ChunkedVectorPoolAllocation_init ::
  "'a heap \<Rightarrow> ChunkedVectorPoolAllocation \<times> 'a heap" where
  "ChunkedVectorPoolAllocation_init h =
     (let (a, h') = PoolAllocator_init 2048 h
      in (\<lparr>chunks_pa = [], size_pa = 0, allocator = a\<rparr>, h'))"

definition push_back_pa ::
  "size_t \<Rightarrow> 'a \<Rightarrow> ChunkedVectorPoolAllocation \<Rightarrow> 'a heap
     \<Rightarrow> error + (ChunkedVectorPoolAllocation \<times> 'a heap)" where
  "push_back_pa CHUNK_SIZE val v h =
     (if CHUNK_SIZE = 0 then Inl DivisionByZero
      else
        (case (if size_pa v mod CHUNK_SIZE = 0
               then (case allocate CHUNK_SIZE (allocator v) h of
                       Inl e \<Rightarrow> Inl e
                     | Inr (p, a', h') \<Rightarrow>
                         Inr (v\<lparr>chunks_pa := chunks_pa v @ [p], allocator := a'\<rparr>, h'))
               else Inr (v, h)) of
           Inl e \<Rightarrow> Inl e
         | Inr (v1, h1) \<Rightarrow>
             (case elem_ptr CHUNK_SIZE (chunks_pa v1) (size_pa v) of
                Inl e \<Rightarrow> Inl e
              | Inr q \<Rightarrow>
                  (case store q val h1 of
                     Inl e \<Rightarrow> Inl e
                   | Inr h2 \<Rightarrow> Inr (v1\<lparr>size_pa := size_pa v + 1\<rparr>, h2)))))"

definition subscript_pa ::
  "size_t \<Rightarrow> size_t \<Rightarrow> ChunkedVectorPoolAllocation \<Rightarrow> 'a heap \<Rightarrow> error + 'a" where
  "subscript_pa CHUNK_SIZE index v h =
     (case elem_ptr CHUNK_SIZE (chunks_pa v) index of Inl e \<Rightarrow> Inl e | Inr q \<Rightarrow> load q h)"

definition get_size_pa :: "ChunkedVectorPoolAllocation \<Rightarrow> size_t" where
  "get_size_pa v = size_pa v"

fun push_back_all_pa ::
  "size_t \<Rightarrow> 'a list \<Rightarrow> ChunkedVectorPoolAllocation \<Rightarrow> 'a heap
     \<Rightarrow> error + (ChunkedVectorPoolAllocation \<times> 'a heap)" where
  "push_back_all_pa CHUNK_SIZE [] v h = Inr (v, h)"
| "push_back_all_pa CHUNK_SIZE (x # xs) v h =
     (case push_back_pa CHUNK_SIZE x v h of
        Inl e \<Rightarrow> Inl e
      | Inr (v', h') \<Rightarrow> push_back_all_pa CHUNK_SIZE xs v' h')"

section \<open>Arithmetic of \<^verbatim>\<open>size_t\<close>\<close>

lemma size_aligned:
  fixes S CHUNK_SIZE :: size_t
  shows "S mod CHUNK_SIZE = 0 \<longleftrightarrow> unat S mod unat CHUNK_SIZE = 0"
  by (metis unat_mod unat_eq_zero)

lemma size_Suc:
  fixes S :: size_t
  assumes "Suc (unat S) < 2 ^ 64"
  shows "unat (S + 1) = Suc (unat S)"
proof -
  have "unat S + unat (1 :: size_t) < 2 ^ LENGTH(64)" using assms by simp
  then have "unat (S + 1) = unat S + unat (1 :: size_t)" by (simp only: unat_add_lem)
  then show ?thesis by simp
qed

lemma word_succ_lt:
  fixes k n :: size_t
  assumes "k < n"
  shows "unat (k + 1) = Suc (unat k)"
proof -
  have "unat k < unat n" using assms by (simp add: word_less_nat_alt)
  moreover have "unat n < 2 ^ 64" using unsigned_less [of n, where ?'a = nat] by simp
  ultimately have "Suc (unat k) < 2 ^ 64" by simp
  then show ?thesis by (rule size_Suc)
qed

section \<open>Benchmark drivers\<close>

text \<open>
  The drivers of \<^verbatim>\<open>vector-allocation-benchmarks.cpp\<close> fill a container with the values
  \<open>0 .. n - 1\<close> and read all of it back, \<^verbatim>\<open>repeat\<close> times. Clocks, the best time and
  the printed table are left out; a driver of the model yields nothing but the fact that
  it returned. \<^verbatim>\<open>int\<close> is the 32-bit word and \<^verbatim>\<open>(int)k\<close> is \<open>ucast k\<close>; the comparison
  \<^verbatim>\<open>i < repeat\<close> of a \<^verbatim>\<open>size_t\<close> with an \<^verbatim>\<open>int\<close> converts the \<^verbatim>\<open>int\<close> (\<open>scast\<close>).
  The accumulator \<^verbatim>\<open>long long sum\<close> is an unbounded integer. Destructors are not modelled:
  the heap only grows.
  \<^verbatim>\<open>
  double benchmarkStdVector(size_t n = 10'000'000, int repeat = 5) {
      for (size_t i = 0; i < repeat; i++) {
          std::vector<int> v;
          v.reserve(n);
          for (size_t k = 0; k < n; k++) v.push_back(k);
          volatile long long sum = 0;
          for (size_t k = 0; k < v.size(); i++) sum += v[i];
      }
  }
  \<close>
  The scan loop of \<^verbatim>\<open>benchmarkStdVector\<close> tests \<^verbatim>\<open>k\<close> and advances \<^verbatim>\<open>i\<close>, the counter
  of the enclosing loop, so it may run forever: it is a \<^theory_text>\<open>partial_function\<close>, in which
  not returning is \<open>None\<close>. Reading \<^verbatim>\<open>v[i]\<close> at or beyond \<^verbatim>\<open>v.size()\<close> is undefined and
  is the error \<open>OutOfBounds\<close>. The scan loops of the two chunked drivers advance
  \<^verbatim>\<open>k\<close>:
  \<^verbatim>\<open>
  for (size_t k = 0; k < n; k++) v.push_back(k);
  for (size_t k = 0; k < v.get_size(); k++) sum += v[k];
  \<close>
  \<^verbatim>\<open>benchmarkChunkedVectorPooled(size_t n)\<close> loops \<^verbatim>\<open>for (size_t i = 0; i < repeat; i++)\<close>
  although it declares no \<^verbatim>\<open>repeat\<close>; the bound is a parameter of the model.
  \<^verbatim>\<open>main\<close> calls the three drivers for each of the sizes 5000000, 10000000, 25000000
  and returns 0.
\<close>

type_synonym cint = "32 word"

function fill_std :: "size_t \<Rightarrow> size_t \<Rightarrow> cint list \<Rightarrow> cint list" where
  "fill_std n k v = (if k < n then fill_std n (k + 1) (v @ [ucast k]) else v)"
  by pat_completeness auto
termination
  by (relation "measure (\<lambda>(n, k, v). unat n - unat k)")
    (auto simp: word_succ_lt word_less_nat_alt)

partial_function (option) scan_std ::
  "cint list \<Rightarrow> size_t \<Rightarrow> size_t \<Rightarrow> int \<Rightarrow> (error + size_t \<times> int) option" where
  "scan_std v k i acc =
     (if k < of_nat (length v)
      then (if unat i < length v
            then scan_std v k (i + 1) (acc + sint (v ! unat i))
            else Some (Inl OutOfBounds))
      else Some (Inr (i, acc)))"

partial_function (option) benchmarkStdVector_loop ::
  "size_t \<Rightarrow> cint \<Rightarrow> size_t \<Rightarrow> (error + unit) option" where
  "benchmarkStdVector_loop n repeat i =
     (if i < scast repeat
      then (case scan_std (fill_std n 0 []) 0 i 0 of
              None \<Rightarrow> None
            | Some (Inl e) \<Rightarrow> Some (Inl e)
            | Some (Inr (i', acc)) \<Rightarrow> benchmarkStdVector_loop n repeat (i' + 1))
      else Some (Inr ()))"

declare scan_std.simps [code]

declare benchmarkStdVector_loop.simps [code]

definition benchmarkStdVector :: "size_t \<Rightarrow> cint \<Rightarrow> (error + unit) option" where
  "benchmarkStdVector n repeat = benchmarkStdVector_loop n repeat 0"

function fill_cv ::
  "size_t \<Rightarrow> size_t \<Rightarrow> ChunkedVector \<Rightarrow> cint heap \<Rightarrow> error + (ChunkedVector \<times> cint heap)" where
  "fill_cv n k v h =
     (if k < n
      then (case push_back DEFAULT_CHUNK_SIZE (ucast k) v h of
              Inl e \<Rightarrow> Inl e
            | Inr (v', h') \<Rightarrow> fill_cv n (k + 1) v' h')
      else Inr (v, h))"
  by pat_completeness auto
termination
  by (relation "measure (\<lambda>(n, k, v, h). unat n - unat k)")
    (auto simp: word_succ_lt word_less_nat_alt)

function scan_cv :: "ChunkedVector \<Rightarrow> cint heap \<Rightarrow> size_t \<Rightarrow> int \<Rightarrow> error + int" where
  "scan_cv v h k acc =
     (if k < get_size v
      then (case subscript DEFAULT_CHUNK_SIZE k v h of
              Inl e \<Rightarrow> Inl e
            | Inr x \<Rightarrow> scan_cv v h (k + 1) (acc + sint x))
      else Inr acc)"
  by pat_completeness auto
termination
  by (relation "measure (\<lambda>(v, h, k, acc). unat (get_size v) - unat k)")
    (auto simp: word_succ_lt word_less_nat_alt)

function benchmarkChunkedVector_loop ::
  "size_t \<Rightarrow> cint \<Rightarrow> size_t \<Rightarrow> cint heap \<Rightarrow> error + cint heap" where
  "benchmarkChunkedVector_loop n repeat i h =
     (if i < scast repeat
      then (case fill_cv n 0 ChunkedVector_init h of
              Inl e \<Rightarrow> Inl e
            | Inr (v, h') \<Rightarrow>
                (case scan_cv v h' 0 0 of
                   Inl e \<Rightarrow> Inl e
                 | Inr acc \<Rightarrow> benchmarkChunkedVector_loop n repeat (i + 1) h'))
      else Inr h)"
  by pat_completeness auto
termination
  by (relation "measure (\<lambda>(n, repeat, i, h). unat (scast repeat :: size_t) - unat i)")
    (auto simp: word_succ_lt word_less_nat_alt)

definition benchmarkChunkedVector :: "size_t \<Rightarrow> cint \<Rightarrow> cint heap \<Rightarrow> error + cint heap" where
  "benchmarkChunkedVector n repeat h = benchmarkChunkedVector_loop n repeat 0 h"

function fill_pa ::
  "size_t \<Rightarrow> size_t \<Rightarrow> ChunkedVectorPoolAllocation \<Rightarrow> cint heap
     \<Rightarrow> error + (ChunkedVectorPoolAllocation \<times> cint heap)" where
  "fill_pa n k v h =
     (if k < n
      then (case push_back_pa DEFAULT_CHUNK_SIZE (ucast k) v h of
              Inl e \<Rightarrow> Inl e
            | Inr (v', h') \<Rightarrow> fill_pa n (k + 1) v' h')
      else Inr (v, h))"
  by pat_completeness auto
termination
  by (relation "measure (\<lambda>(n, k, v, h). unat n - unat k)")
    (auto simp: word_succ_lt word_less_nat_alt)

function scan_pa ::
  "ChunkedVectorPoolAllocation \<Rightarrow> cint heap \<Rightarrow> size_t \<Rightarrow> int \<Rightarrow> error + int" where
  "scan_pa v h k acc =
     (if k < get_size_pa v
      then (case subscript_pa DEFAULT_CHUNK_SIZE k v h of
              Inl e \<Rightarrow> Inl e
            | Inr x \<Rightarrow> scan_pa v h (k + 1) (acc + sint x))
      else Inr acc)"
  by pat_completeness auto
termination
  by (relation "measure (\<lambda>(v, h, k, acc). unat (get_size_pa v) - unat k)")
    (auto simp: word_succ_lt word_less_nat_alt)

function benchmarkChunkedVectorPooled_loop ::
  "size_t \<Rightarrow> size_t \<Rightarrow> size_t \<Rightarrow> cint heap \<Rightarrow> error + cint heap" where
  "benchmarkChunkedVectorPooled_loop n repeat i h =
     (if i < repeat
      then (case ChunkedVectorPoolAllocation_init h of
              (v0, h0) \<Rightarrow>
                (case fill_pa n 0 v0 h0 of
                   Inl e \<Rightarrow> Inl e
                 | Inr (v, h') \<Rightarrow>
                     (case scan_pa v h' 0 0 of
                        Inl e \<Rightarrow> Inl e
                      | Inr acc \<Rightarrow> benchmarkChunkedVectorPooled_loop n repeat (i + 1) h')))
      else Inr h)"
  by pat_completeness auto
termination
  by (relation "measure (\<lambda>(n, repeat, i, h). unat repeat - unat i)")
    (auto simp: word_succ_lt word_less_nat_alt)

definition benchmarkChunkedVectorPooled :: "size_t \<Rightarrow> size_t \<Rightarrow> cint heap \<Rightarrow> error + cint heap" where
  "benchmarkChunkedVectorPooled n repeat h = benchmarkChunkedVectorPooled_loop n repeat 0 h"

fun main_loop :: "size_t \<Rightarrow> size_t list \<Rightarrow> cint heap \<Rightarrow> (error + int) option" where
  "main_loop repeat [] h = Some (Inr 0)"
| "main_loop repeat (N # testSizes) h =
     (case benchmarkStdVector N 5 of
        None \<Rightarrow> None
      | Some (Inl e) \<Rightarrow> Some (Inl e)
      | Some (Inr t1) \<Rightarrow>
          (case benchmarkChunkedVector N 5 h of
             Inl e \<Rightarrow> Some (Inl e)
           | Inr h1 \<Rightarrow>
               (case benchmarkChunkedVectorPooled N repeat h1 of
                  Inl e \<Rightarrow> Some (Inl e)
                | Inr h2 \<Rightarrow> main_loop repeat testSizes h2)))"

definition main_cpp :: "size_t \<Rightarrow> (error + int) option" where
  "main_cpp repeat = main_loop repeat [5000000, 10000000, 25000000] []"

section \<open>AoS and SoA particles\<close>

text \<open>
  \<^verbatim>\<open>
  struct ParticleAos { float x, y, z; double mass; };
  struct ParticlesSoA {
      std::vector<float> x, y, z, mass;
      ParticlesSoA(size_t n) { x.resize(n), y.resize(n), z.resize(n), mass.resize(n); }
  };
  // benchmarkAoS
  std::vector<ParticleAos> particles; particles.reserve(n);
  std::mt19937_64 rng(123);
  std::uniform_real_distribution<float> dist(-1000.f, 1000.f);
  for (size_t i = 0; i < n; i++) particles.push_back({ dist(rng), dist(rng), dist(rng), dist(rng) });
  // benchmarkSoA
  ParticlesSoA particles(n);
  std::mt19937_64 rng(123);
  std::uniform_real_distribution<float> dist(-1000.f, 1000.f);
  for (size_t i = 0; i < n; i++) {
      particles.x[i] = dist(rng); particles.y[i] = dist(rng);
      particles.z[i] = dist(rng); particles.mass[i] = dist(rng);
  }
  \<close>
  A \<^verbatim>\<open>float\<close> is its 32-bit pattern and a \<^verbatim>\<open>double\<close> its 64-bit pattern; no arithmetic
  is done on either by the initialisation loops. The generator and the conversion belong
  to the C++ library and are parameters: \<open>dist\<close> is one evaluation of \<^verbatim>\<open>dist(rng)\<close>, from
  an engine state to the drawn \<^verbatim>\<open>float\<close> and the next state; \<open>seeded\<close> is the state of
  \<^verbatim>\<open>std::mt19937_64 rng(123)\<close>; \<open>widen\<close> is the conversion of a \<^verbatim>\<open>float\<close> to \<^verbatim>\<open>double\<close>
  that initialises \<^verbatim>\<open>mass\<close> of \<^verbatim>\<open>ParticleAos\<close>. The initialisers of the braced list are
  evaluated from left to right. The loop counter stays below \<open>n\<close>, so it is a natural
  number, and the subscripts of the SoA loop stay below the size given by \<^verbatim>\<open>resize\<close>.
  The field names carry the suffixes \<open>_aos\<close> and \<open>_soa\<close>.
\<close>

type_synonym float32 = "32 word"
type_synonym float64 = "64 word"

record ParticleAos =
  x_aos :: float32
  y_aos :: float32
  z_aos :: float32
  mass_aos :: float64

record ParticlesSoA =
  x_soa :: "float32 list"
  y_soa :: "float32 list"
  z_soa :: "float32 list"
  mass_soa :: "float32 list"

definition ParticlesSoA_init :: "nat \<Rightarrow> ParticlesSoA" where
  "ParticlesSoA_init n =
     \<lparr>x_soa = replicate n 0, y_soa = replicate n 0, z_soa = replicate n 0, mass_soa = replicate n 0\<rparr>"

function init_AoS ::
  "('g \<Rightarrow> float32 \<times> 'g) \<Rightarrow> (float32 \<Rightarrow> float64) \<Rightarrow> nat \<Rightarrow> nat \<Rightarrow> 'g \<Rightarrow> ParticleAos list
     \<Rightarrow> ParticleAos list \<times> 'g" where
  "init_AoS dist widen n i rng particles =
     (if i < n
      then (let (a, r1) = dist rng; (b, r2) = dist r1; (c, r3) = dist r2; (d, r4) = dist r3
            in init_AoS dist widen n (Suc i) r4
                 (particles @ [\<lparr>x_aos = a, y_aos = b, z_aos = c, mass_aos = widen d\<rparr>]))
      else (particles, rng))"
  by pat_completeness auto
termination
  by (relation "measure (\<lambda>(dist, widen, n, i, rng, particles). n - i)") auto

function init_SoA ::
  "('g \<Rightarrow> float32 \<times> 'g) \<Rightarrow> nat \<Rightarrow> nat \<Rightarrow> 'g \<Rightarrow> ParticlesSoA \<Rightarrow> ParticlesSoA \<times> 'g" where
  "init_SoA dist n i rng particles =
     (if i < n
      then (let (a, r1) = dist rng; (b, r2) = dist r1; (c, r3) = dist r2; (d, r4) = dist r3
            in init_SoA dist n (Suc i) r4
                 (particles\<lparr>x_soa := (x_soa particles)[i := a],
                            y_soa := (y_soa particles)[i := b],
                            z_soa := (z_soa particles)[i := c],
                            mass_soa := (mass_soa particles)[i := d]\<rparr>))
      else (particles, rng))"
  by pat_completeness auto
termination
  by (relation "measure (\<lambda>(dist, n, i, rng, particles). n - i)") auto

definition benchmarkAoS_init ::
  "('g \<Rightarrow> float32 \<times> 'g) \<Rightarrow> (float32 \<Rightarrow> float64) \<Rightarrow> 'g \<Rightarrow> nat \<Rightarrow> ParticleAos list \<times> 'g" where
  "benchmarkAoS_init dist widen seeded n = init_AoS dist widen n 0 seeded []"

definition benchmarkSoA_init ::
  "('g \<Rightarrow> float32 \<times> 'g) \<Rightarrow> 'g \<Rightarrow> nat \<Rightarrow> ParticlesSoA \<times> 'g" where
  "benchmarkSoA_init dist seeded n = init_SoA dist n 0 seeded (ParticlesSoA_init n)"

section \<open>Invariants\<close>

text \<open>
  The predicates below serve the statements and proofs; none of them is code.
  \<open>ceil_div n d\<close> is the \<open>ceil(n / d)\<close> of the specification on natural numbers, and
  \<open>whole_multiple c n\<close> its "c is a whole multiple of n". \<open>pool_inv a h cs\<close> relates an
  allocator to the heap and to the carves \<open>cs\<close> (pointer and requested size, in call
  order) it has issued so far: every buffer is a whole array of \<open>capacity\<close> cells, every
  carve lies inside one of the buffers, the carves of the newest buffer end at or below
  \<open>offset\<close>, an earlier carve of a buffer ends where a later one of the same buffer
  starts or before, and the buffers have room for the sum of the requests.
  \<open>new_buffers C off ns\<close> is the rule of \<^verbatim>\<open>allocate\<close> on natural numbers: the number of
  requests of \<open>ns\<close> that do not fit into the room left, \<open>off\<close> being the part of the
  current buffer in use; each of them opens a buffer and is carved at its start.
  \<open>cells_ok cs chs h\<close> says that the \<open>cs\<close> cells of every chunk of \<open>chs\<close> exist in \<open>h\<close>
  and that no cell belongs to two chunks; \<open>contents\<close> says that the chunk list has
  \<open>ceil_div (length vs) cs\<close> chunks which hold \<open>vs\<close> in order. \<open>agree_upto\<close> compares the
  first \<open>i\<close> particles of the two layouts field by field. \<open>one_short_chunk k v h\<close>
  describes a pool-backed sequence of \<open>k\<close> elements whose only chunk starts a buffer of
  2048 cells.
\<close>

definition carve_before :: "ptr \<times> size_t \<Rightarrow> ptr \<times> size_t \<Rightarrow> bool" where
  "carve_before c d = (block (fst c) = block (fst d) \<longrightarrow> offs (fst c) + unat (snd c) \<le> offs (fst d))"

definition pool_inv :: "PoolAllocator \<Rightarrow> 'a heap \<Rightarrow> (ptr \<times> size_t) list \<Rightarrow> bool" where
  "pool_inv a h cs \<longleftrightarrow>
     buffers a \<noteq> [] \<and> offset a \<le> capacity a \<and>
     (\<forall>b\<in>set (buffers a). offs b = 0 \<and> block b < length h \<and>
        length (h ! block b) = unat (capacity a)) \<and>
     (\<forall>c\<in>set cs. (\<exists>b\<in>set (buffers a). block (fst c) = block b) \<and>
        offs (fst c) + unat (snd c) \<le> unat (capacity a) \<and>
        (block (fst c) = block (last (buffers a)) \<longrightarrow>
           offs (fst c) + unat (snd c) \<le> unat (offset a))) \<and>
     sorted_wrt carve_before cs \<and>
     sum_list (map (unat \<circ> snd) cs) + unat (capacity a)
       \<le> length (buffers a) * unat (capacity a) + unat (offset a)"

fun new_buffers :: "nat \<Rightarrow> nat \<Rightarrow> nat list \<Rightarrow> nat" where
  "new_buffers C off [] = 0"
| "new_buffers C off (n # ns) =
     (if C < off + n then Suc (new_buffers C n ns) else new_buffers C (off + n) ns)"

definition ceil_div :: "nat \<Rightarrow> nat \<Rightarrow> nat" where
  "ceil_div n d = (n + d - 1) div d"

definition slot :: "nat \<Rightarrow> ptr list \<Rightarrow> nat \<Rightarrow> ptr" where
  "slot cs chs i = ptr_add (chs ! (i div cs)) (i mod cs)"

definition cells_ok :: "nat \<Rightarrow> ptr list \<Rightarrow> 'a heap \<Rightarrow> bool" where
  "cells_ok cs chs h \<longleftrightarrow>
     (\<forall>j<length chs. \<forall>k<cs. in_bounds h (ptr_add (chs ! j) k)) \<and>
     (\<forall>j<length chs. \<forall>j'<length chs. \<forall>k<cs. \<forall>k'<cs.
        ptr_add (chs ! j) k = ptr_add (chs ! j') k' \<longrightarrow> j = j')"

definition contents :: "nat \<Rightarrow> ptr list \<Rightarrow> 'a heap \<Rightarrow> 'a list \<Rightarrow> bool" where
  "contents cs chs h vs \<longleftrightarrow>
     length chs = ceil_div (length vs) cs \<and>
     (\<forall>i<length vs. load (slot cs chs i) h = Inr (vs ! i))"

definition cv_inv :: "size_t \<Rightarrow> nat \<Rightarrow> ChunkedVector \<Rightarrow> 'a heap \<Rightarrow> 'a list \<Rightarrow> bool" where
  "cv_inv CHUNK_SIZE base v h vs \<longleftrightarrow>
     unat (size_v v) = length vs \<and>
     length h = base + length (chunks v) \<and>
     cells_ok (unat CHUNK_SIZE) (chunks v) h \<and>
     contents (unat CHUNK_SIZE) (chunks v) h vs"

definition pa_inv ::
  "size_t \<Rightarrow> ChunkedVectorPoolAllocation \<Rightarrow> 'a heap \<Rightarrow> 'a list \<Rightarrow> bool" where
  "pa_inv CHUNK_SIZE v h vs \<longleftrightarrow>
     unat (size_pa v) = length vs \<and>
     capacity (allocator v) = 2048 \<and>
     pool_inv (allocator v) h (map (\<lambda>c. (c, CHUNK_SIZE)) (chunks_pa v)) \<and>
     contents (unat CHUNK_SIZE) (chunks_pa v) h vs"

definition one_short_chunk :: "nat \<Rightarrow> ChunkedVectorPoolAllocation \<Rightarrow> 'a heap \<Rightarrow> bool" where
  "one_short_chunk k v h \<longleftrightarrow>
     unat (size_pa v) = k \<and>
     (\<exists>b. chunks_pa v = [Ptr b 0] \<and> b < length h \<and> length (h ! b) = 2048)"

definition whole_multiple :: "size_t \<Rightarrow> size_t \<Rightarrow> bool" where
  "whole_multiple c n \<longleftrightarrow> n \<noteq> 0 \<and> c \<noteq> 0 \<and> c mod n = 0"

definition agree_upto :: "(float32 \<Rightarrow> float64) \<Rightarrow> nat \<Rightarrow> ParticleAos list \<Rightarrow> ParticlesSoA \<Rightarrow> bool" where
  "agree_upto widen i ps s \<longleftrightarrow>
     (\<forall>j<i. x_aos (ps ! j) = x_soa s ! j \<and> y_aos (ps ! j) = y_soa s ! j \<and>
        z_aos (ps ! j) = z_soa s ! j \<and> mass_aos (ps ! j) = widen (mass_soa s ! j))"

definition soa_size :: "nat \<Rightarrow> ParticlesSoA \<Rightarrow> bool" where
  "soa_size n s \<longleftrightarrow> length (x_soa s) = n \<and> length (y_soa s) = n \<and> length (z_soa s) = n \<and>
     length (mass_soa s) = n"

section \<open>The pool allocator\<close>

lemma pool_inv_init: "pool_inv (fst (PoolAllocator_init C h)) (snd (PoolAllocator_init C h)) []"
  by (simp add: pool_inv_def PoolAllocator_init_def new_array_def)

lemma unat_add_small:
  fixes x y c :: size_t
  assumes "x \<le> c" "y \<le> c" "unat c < 2 ^ 63"
  shows "unat (x + y) = unat x + unat y"
proof -
  have "unat x \<le> unat c" "unat y \<le> unat c"
    using assms by (simp_all add: word_le_nat_alt)
  then have "unat x + unat y < 2 ^ 64" using assms(3) by simp
  then show ?thesis by (simp add: unat_add_lem [THEN iffD1])
qed

lemma allocate_fits:
  assumes inv: "pool_inv a h cs" and fit: "\<not> capacity a < offset a + n"
    and n: "n \<le> capacity a" and C: "unat (capacity a) < 2 ^ 63"
  shows "allocate n a h =
           Inr (ptr_add (last (buffers a)) (unat (offset a)), a\<lparr>offset := offset a + n\<rparr>, h)"
    and "pool_inv (a\<lparr>offset := offset a + n\<rparr>) h
           (cs @ [(ptr_add (last (buffers a)) (unat (offset a)), n)])"
proof -
  let ?p = "ptr_add (last (buffers a)) (unat (offset a))"
  let ?a = "a\<lparr>offset := offset a + n\<rparr>"
  from inv have ne: "buffers a \<noteq> []" and oc: "offset a \<le> capacity a"
    by (simp_all add: pool_inv_def)
  show "allocate n a h = Inr (?p, ?a, h)"
    using fit ne by (simp add: allocate_def)
  have sum: "unat (offset a + n) = unat (offset a) + unat n"
    using oc n C by (rule unat_add_small)
  from fit have le: "unat (offset a) + unat n \<le> unat (capacity a)"
    by (simp add: word_less_nat_alt sum not_less)
  have lb: "last (buffers a) \<in> set (buffers a)" using ne by simp
  with inv have lb0: "offs (last (buffers a)) = 0"
    by (simp add: pool_inv_def)
  have 1: "offset ?a \<le> capacity ?a"
    using le by (simp add: word_le_nat_alt sum)
  have 2: "sorted_wrt carve_before (cs @ [(?p, n)])"
    using inv lb0 by (auto simp: pool_inv_def sorted_wrt_append carve_before_def ptr_add_def)
  have 3: "\<forall>c\<in>set (cs @ [(?p, n)]).
      (\<exists>b\<in>set (buffers ?a). block (fst c) = block b) \<and>
      offs (fst c) + unat (snd c) \<le> unat (capacity ?a) \<and>
      (block (fst c) = block (last (buffers ?a)) \<longrightarrow>
         offs (fst c) + unat (snd c) \<le> unat (offset ?a))"
    using inv lb lb0 le by (auto simp: pool_inv_def ptr_add_def sum)
  have 4: "sum_list (map (unat \<circ> snd) (cs @ [(?p, n)])) + unat (capacity ?a)
      \<le> length (buffers ?a) * unat (capacity ?a) + unat (offset ?a)"
    using inv by (simp add: pool_inv_def sum)
  from inv 1 2 3 4 show "pool_inv ?a h (cs @ [(?p, n)])"
    unfolding pool_inv_def by simp
qed

lemma allocate_grows:
  assumes inv: "pool_inv a h cs" and grow: "capacity a < offset a + n"
    and n: "n \<le> capacity a"
  shows "allocate n a h =
           Inr (Ptr (length h) 0, a\<lparr>buffers := buffers a @ [Ptr (length h) 0], offset := n\<rparr>,
                h @ [replicate (unat (capacity a)) None])"
    and "pool_inv (a\<lparr>buffers := buffers a @ [Ptr (length h) 0], offset := n\<rparr>)
           (h @ [replicate (unat (capacity a)) None]) (cs @ [(Ptr (length h) 0, n)])"
proof -
  let ?p = "Ptr (length h) 0"
  let ?a = "a\<lparr>buffers := buffers a @ [?p], offset := n\<rparr>"
  let ?h = "h @ [replicate (unat (capacity a)) None]"
  show "allocate n a h = Inr (?p, ?a, ?h)"
    using grow by (simp add: allocate_def new_array_def ptr_add_def)
  have nle: "unat n \<le> unat (capacity a)" using n by (simp add: word_le_nat_alt)
  from inv have oc: "unat (offset a) \<le> unat (capacity a)"
    by (simp add: pool_inv_def word_le_nat_alt)
  from inv have old: "\<forall>c\<in>set cs. block (fst c) < length h"
    by (fastforce simp: pool_inv_def)
  have 1: "sorted_wrt carve_before (cs @ [(?p, n)])"
    using inv old by (auto simp: pool_inv_def sorted_wrt_append carve_before_def)
  have 2: "\<forall>b\<in>set (buffers ?a). offs b = 0 \<and> block b < length ?h \<and>
      length (?h ! block b) = unat (capacity ?a)"
    using inv by (auto simp: pool_inv_def nth_append)
  have 3: "\<forall>c\<in>set (cs @ [(?p, n)]).
      (\<exists>b\<in>set (buffers ?a). block (fst c) = block b) \<and>
      offs (fst c) + unat (snd c) \<le> unat (capacity ?a) \<and>
      (block (fst c) = block (last (buffers ?a)) \<longrightarrow>
         offs (fst c) + unat (snd c) \<le> unat (offset ?a))"
    using inv nle old by (fastforce simp: pool_inv_def)
  have 4: "sum_list (map (unat \<circ> snd) (cs @ [(?p, n)])) + unat (capacity ?a)
      \<le> length (buffers ?a) * unat (capacity ?a) + unat (offset ?a)"
    using inv oc by (simp add: pool_inv_def)
  from n 1 2 3 4 show "pool_inv ?a ?h (cs @ [(?p, n)])"
    unfolding pool_inv_def by simp
qed

lemma allocate_step:
  assumes "pool_inv a h cs" "n \<le> capacity a" "unat (capacity a) < 2 ^ 63"
  shows "\<exists>p a' h' bs. allocate n a h = Inr (p, a', h') \<and> pool_inv a' h' (cs @ [(p, n)]) \<and>
           capacity a' = capacity a \<and> h' = h @ bs"
proof (cases "capacity a < offset a + n")
  case True
  from allocate_grows [OF assms(1) True assms(2)] show ?thesis by simp
next
  case False
  from allocate_fits [OF assms(1) False assms(2) assms(3)] show ?thesis by simp
qed

lemma allocate_all_inv:
  assumes "pool_inv a h cs" "\<forall>n\<in>set ns. n \<le> capacity a" "unat (capacity a) < 2 ^ 63"
  shows "\<exists>ps a' h'. allocate_all ns a h = Inr (ps, a', h') \<and> length ps = length ns \<and>
           pool_inv a' h' (cs @ zip ps ns) \<and> capacity a' = capacity a"
  using assms
proof (induction ns arbitrary: a h cs)
  case Nil
  then show ?case by simp
next
  case (Cons n ns)
  from allocate_step [OF Cons.prems(1) _ Cons.prems(3), of n] Cons.prems(2)
  obtain p a1 h1 where st: "allocate n a h = Inr (p, a1, h1)"
    and inv1: "pool_inv a1 h1 (cs @ [(p, n)])" and cap: "capacity a1 = capacity a"
    by auto
  from Cons.IH [OF inv1] Cons.prems(2,3) cap
  obtain ps a2 h2 where rest: "allocate_all ns a1 h1 = Inr (ps, a2, h2)"
    and len: "length ps = length ns" and inv2: "pool_inv a2 h2 ((cs @ [(p, n)]) @ zip ps ns)"
    and cap2: "capacity a2 = capacity a1"
    by auto
  show ?case using st rest len inv2 cap cap2 by simp
qed

lemma ceil_le:
  fixes S C k :: nat
  assumes "S \<le> k * C"
  shows "(S + C - 1) div C \<le> k"
proof (cases "C = 0")
  case True
  then show ?thesis by simp
next
  case False
  then have "S + C - 1 < Suc k * C" using assms by simp
  then have "(S + C - 1) div C < Suc k" by (rule less_mult_imp_div_less)
  then show ?thesis by simp
qed

lemma new_buffers_pairs:
  "(Suc (new_buffers C off ns) div 2) * Suc C \<le> off + sum_list ns \<and>
   (new_buffers C off ns div 2) * Suc C \<le> sum_list ns"
proof (induction ns arbitrary: off)
  case Nil
  then show ?case by simp
next
  case (Cons n ns)
  show ?case
  proof (cases "C < off + n")
    case True
    from Cons.IH [of n] have a: "(Suc (new_buffers C n ns) div 2) * Suc C \<le> n + sum_list ns"
      and b: "(new_buffers C n ns div 2) * Suc C \<le> sum_list ns" by simp_all
    have "Suc (Suc (new_buffers C n ns)) div 2 = Suc (new_buffers C n ns div 2)" by simp
    with True a b show ?thesis by simp
  next
    case False
    with Cons.IH [of "off + n"] show ?thesis by (simp add: add.assoc) 
  qed
qed

lemma new_buffers_upper: "Suc (new_buffers C 0 ns) \<le> 2 * (sum_list ns div Suc C) + 1"
proof -
  from new_buffers_pairs [of C 0 ns]
  have "(Suc (new_buffers C 0 ns) div 2) * Suc C \<le> sum_list ns" by simp
  then have "Suc (new_buffers C 0 ns) div 2 \<le> sum_list ns div Suc C"
    by (simp add: less_eq_div_iff_mult_less_eq)
  then show ?thesis by linarith
qed

lemma allocate_all_count:
  assumes "pool_inv a h cs" "\<forall>n\<in>set ns. n \<le> capacity a" "unat (capacity a) < 2 ^ 63"
    and "allocate_all ns a h = Inr (ps, a', h')"
  shows "length (buffers a') =
           length (buffers a) + new_buffers (unat (capacity a)) (unat (offset a)) (map unat ns)"
  using assms
proof (induction ns arbitrary: a h cs ps)
  case Nil
  then show ?case by simp
next
  case (Cons n ns)
  from Cons.prems(2) have n: "n \<le> capacity a" by simp
  from Cons.prems(1) have oc: "offset a \<le> capacity a" by (simp add: pool_inv_def)
  have sum: "unat (offset a + n) = unat (offset a) + unat n"
    using oc n Cons.prems(3) by (rule unat_add_small)
  show ?case
  proof (cases "capacity a < offset a + n")
    case True
    let ?a1 = "a\<lparr>buffers := buffers a @ [Ptr (length h) 0], offset := n\<rparr>"
    let ?h1 = "h @ [replicate (unat (capacity a)) None]"
    note g = allocate_grows [OF Cons.prems(1) True n]
    from Cons.prems(4) g(1) obtain ps1 where
      rest: "allocate_all ns ?a1 ?h1 = Inr (ps1, a', h')"
      by (auto split: sum.splits)
    from Cons.IH [OF g(2) _ _ rest] Cons.prems(2,3)
    have "length (buffers a') = length (buffers ?a1) + new_buffers (unat (capacity a)) (unat n) (map unat ns)"
      by simp
    moreover from True have "unat (capacity a) < unat (offset a) + unat n"
      by (simp add: word_less_nat_alt sum)
    ultimately show ?thesis by simp
  next
    case False
    let ?a1 = "a\<lparr>offset := offset a + n\<rparr>"
    note f = allocate_fits [OF Cons.prems(1) False n Cons.prems(3)]
    from Cons.prems(4) f(1) obtain ps1 where
      rest: "allocate_all ns ?a1 h = Inr (ps1, a', h')"
      by (auto split: sum.splits)
    from Cons.IH [OF f(2) _ _ rest] Cons.prems(2,3)
    have "length (buffers a') = length (buffers ?a1) + new_buffers (unat (capacity a)) (unat (offset a + n)) (map unat ns)"
      by simp
    moreover from False have "\<not> unat (capacity a) < unat (offset a) + unat n"
      by (simp add: word_less_nat_alt sum)
    ultimately show ?thesis by (simp add: sum)
  qed
qed

lemma zip_carves:
  assumes "length ps = length ns" "i < length ns"
  shows "(ps ! i, ns ! i) \<in> set (zip ps ns)"
  using assms by (metis in_set_zip fst_conv snd_conv)

text \<open>
  C2, as the code has it. For an allocator constructed with capacity \<open>C\<close> (below \<open>2 ^ 63\<close>,
  so that \<^verbatim>\<open>offset + n\<close> cannot wrap around) and every sequence \<open>ns\<close> of requests that
  are each at most \<open>C\<close>, all calls return. The buffers created are the one of the
  constructor and one for every request that does not fit into the room left in the
  newest buffer (\<^verbatim>\<open>offset + n > capacity\<close>), and no others. With \<open>S\<close> the sum of the
  requests, that number is at least \<open>ceil(S / C)\<close> and at most
  \<open>2 * floor(S / (C + 1)) + 1\<close>, hence exactly 1 when \<open>S \<le> C\<close>; it is not always
  \<open>ceil(S / C)\<close>, because the room left at the end of a buffer is skipped when the next
  request does not fit, and the constructor creates a buffer before any request. Every
  carve is a sub-range of one buffer of the allocator, and two distinct carves of the
  same buffer are disjoint sub-ranges.
\<close>

theorem allocate_all_buffers_and_carves:
  assumes "\<forall>n\<in>set ns. n \<le> C" and "unat C < 2 ^ 63"
  shows "\<exists>ps a h'. allocate_all ns (fst (PoolAllocator_init C h)) (snd (PoolAllocator_init C h))
             = Inr (ps, a, h') \<and>
           length ps = length ns \<and>
           length (buffers a) = Suc (new_buffers (unat C) 0 (map unat ns)) \<and>
           ceil_div (sum_list (map unat ns)) (unat C) \<le> length (buffers a) \<and>
           length (buffers a) \<le> 2 * (sum_list (map unat ns) div Suc (unat C)) + 1 \<and>
           (\<forall>i<length ns. \<exists>b\<in>set (buffers a). block (ps ! i) = block b \<and> offs b = 0 \<and>
              block b < length h' \<and> offs (ps ! i) + unat (ns ! i) \<le> length (h' ! block b)) \<and>
           (\<forall>i<length ns. \<forall>j<length ns. i \<noteq> j \<and> block (ps ! i) = block (ps ! j) \<longrightarrow>
              {offs (ps ! i) ..< offs (ps ! i) + unat (ns ! i)} \<inter>
              {offs (ps ! j) ..< offs (ps ! j) + unat (ns ! j)} = {})"
proof -
  let ?a0 = "fst (PoolAllocator_init C h)" and ?h0 = "snd (PoolAllocator_init C h)"
  have cap0: "capacity ?a0 = C" and off0: "offset ?a0 = 0" and buf0: "length (buffers ?a0) = 1"
    by (simp_all add: PoolAllocator_init_def new_array_def)
  have inv0: "pool_inv ?a0 ?h0 []" by (rule pool_inv_init)
  from allocate_all_inv [OF inv0, of ns] assms cap0
  obtain ps a h' where run: "allocate_all ns ?a0 ?h0 = Inr (ps, a, h')"
    and len: "length ps = length ns" and inv: "pool_inv a h' (zip ps ns)"
    and cap: "capacity a = C"
    by auto
  from allocate_all_count [OF inv0 _ _ run] assms cap0 off0 buf0
  have rule: "length (buffers a) = Suc (new_buffers (unat C) 0 (map unat ns))" by simp
  have upper: "length (buffers a) \<le> 2 * (sum_list (map unat ns) div Suc (unat C)) + 1"
    unfolding rule by (rule new_buffers_upper)
  have "map (unat \<circ> snd) (zip ps ns) = map unat ns"
    using len by (simp add: map_snd_zip flip: map_map)
  with inv have "sum_list (map unat ns) + unat C \<le> length (buffers a) * unat C + unat (offset a)"
    and "unat (offset a) \<le> unat C"
    using cap by (simp_all add: pool_inv_def word_le_nat_alt)
  then have "sum_list (map unat ns) \<le> length (buffers a) * unat C" by simp
  then have cnt: "ceil_div (sum_list (map unat ns)) (unat C) \<le> length (buffers a)"
    unfolding ceil_div_def by (rule ceil_le)
  have within: "\<exists>b\<in>set (buffers a). block (ps ! i) = block b \<and> offs b = 0 \<and>
      block b < length h' \<and> offs (ps ! i) + unat (ns ! i) \<le> length (h' ! block b)"
    if "i < length ns" for i
  proof -
    from zip_carves [OF len that] inv
    obtain b where "b \<in> set (buffers a)" "block (ps ! i) = block b"
      and "offs (ps ! i) + unat (ns ! i) \<le> unat (capacity a)"
      unfolding pool_inv_def by fastforce
    moreover from this inv have "offs b = 0" "block b < length h'"
      "length (h' ! block b) = unat (capacity a)"
      unfolding pool_inv_def by auto
    ultimately show ?thesis by auto
  qed
  have ordered: "offs (ps ! i) + unat (ns ! i) \<le> offs (ps ! j)"
    if "i < j" "j < length ns" "block (ps ! i) = block (ps ! j)" for i j
  proof -
    from inv have "sorted_wrt carve_before (zip ps ns)" by (simp add: pool_inv_def)
    with that len have "carve_before (zip ps ns ! i) (zip ps ns ! j)"
      by (simp add: sorted_wrt_iff_nth_less)
    with that len show ?thesis by (simp add: carve_before_def)
  qed
  have disj: "{offs (ps ! i) ..< offs (ps ! i) + unat (ns ! i)} \<inter>
      {offs (ps ! j) ..< offs (ps ! j) + unat (ns ! j)} = {}"
    if "i < length ns" "j < length ns" "i \<noteq> j" "block (ps ! i) = block (ps ! j)" for i j
  proof (cases i j rule: linorder_cases)
    case less
    from ordered [OF less that(2,4)] show ?thesis by auto
  next
    case greater
    from ordered [OF greater that(1)] that(4) show ?thesis by auto
  qed (use that in simp)
  from run len rule cnt upper within disj show ?thesis by blast
qed

text \<open>
  The scenario of the specification, capacity 8 and the requests 3, 3, 3: two buffers,
  the first two carves next to each other in the first. Capacity 8 and the requests 4, 4:
  one buffer.
\<close>

theorem allocate_all_buffers_and_carves_witness:
  "(\<exists>ps a h'. allocate_all [3, 3, 3] (fst (PoolAllocator_init 8 ([] :: int heap)))
       (snd (PoolAllocator_init 8 ([] :: int heap))) = Inr (ps, a, h') \<and>
     length (buffers a) = 2 \<and>
     {offs (ps ! 0) ..< offs (ps ! 0) + 3} \<inter> {offs (ps ! 1) ..< offs (ps ! 1) + 3} = {}) \<and>
   (\<exists>ps a h'. allocate_all [4, 4] (fst (PoolAllocator_init 8 ([] :: int heap)))
       (snd (PoolAllocator_init 8 ([] :: int heap))) = Inr (ps, a, h') \<and>
     length (buffers a) = 1)"
proof -
  have hyp: "\<forall>n\<in>set [3, 3, 3 :: size_t]. n \<le> 8" "unat (8 :: size_t) < 2 ^ 63"
    "\<forall>n\<in>set [4, 4 :: size_t]. n \<le> 8" by simp_all
  from allocate_all_buffers_and_carves [OF hyp(1,2), of "[] :: int heap"]
  obtain ps a h' where run: "allocate_all [3, 3, 3] (fst (PoolAllocator_init 8 ([] :: int heap)))
       (snd (PoolAllocator_init 8 ([] :: int heap))) = Inr (ps, a, h')"
    and cnt: "length (buffers a) = Suc (new_buffers (unat (8 :: size_t)) 0 (map unat [3, 3, 3 :: size_t]))"
    and disj: "\<forall>i<length [3, 3, 3 :: size_t]. \<forall>j<length [3, 3, 3 :: size_t].
        i \<noteq> j \<and> block (ps ! i) = block (ps ! j) \<longrightarrow>
        {offs (ps ! i) ..< offs (ps ! i) + unat ([3, 3, 3 :: size_t] ! i)} \<inter>
        {offs (ps ! j) ..< offs (ps ! j) + unat ([3, 3, 3 :: size_t] ! j)} = {}"
    by blast
  from cnt have two: "length (buffers a) = 2" by simp
  from run have "ps = [Ptr 0 0, Ptr 0 3, Ptr 1 0]"
    by (simp add: allocate_def PoolAllocator_init_def new_array_def ptr_add_def)
  with disj [rule_format, of 0 1] have
    "{offs (ps ! 0) ..< offs (ps ! 0) + 3} \<inter> {offs (ps ! 1) ..< offs (ps ! 1) + 3} = {}"
    by simp
  with run two have first: "\<exists>ps a h'. allocate_all [3, 3, 3] (fst (PoolAllocator_init 8 ([] :: int heap)))
       (snd (PoolAllocator_init 8 ([] :: int heap))) = Inr (ps, a, h') \<and>
     length (buffers a) = 2 \<and>
     {offs (ps ! 0) ..< offs (ps ! 0) + 3} \<inter> {offs (ps ! 1) ..< offs (ps ! 1) + 3} = {}"
    by blast
  from allocate_all_buffers_and_carves [OF hyp(3,2), of "[] :: int heap"]
  obtain qs b k' where run2: "allocate_all [4, 4] (fst (PoolAllocator_init 8 ([] :: int heap)))
       (snd (PoolAllocator_init 8 ([] :: int heap))) = Inr (qs, b, k')"
    and up: "length (buffers b) \<le> 2 * (sum_list (map unat [4, 4 :: size_t]) div Suc (unat (8 :: size_t))) + 1"
    and lo: "length (buffers b) = Suc (new_buffers (unat (8 :: size_t)) 0 (map unat [4, 4 :: size_t]))"
    by blast
  from up lo have "length (buffers b) = 1" by simp
  with run2 first show ?thesis by blast
qed

text \<open>
  Capacity 8 and the requests 5, 5, 5 sum up to 15, and \<open>ceil(15 / 8) = 2\<close>, but no two
  of the requests fit into one buffer: three buffers are created.
\<close>

theorem allocate_all_buffers_counterexample:
  "allocate_all [5, 5, 5] (fst (PoolAllocator_init 8 ([] :: int heap)))
       (snd (PoolAllocator_init 8 ([] :: int heap)))
     = Inr ([Ptr 0 0, Ptr 1 0, Ptr 2 0],
            \<lparr>buffers = [Ptr 0 0, Ptr 1 0, Ptr 2 0], capacity = 8, offset = 5\<rparr>,
            [replicate 8 None, replicate 8 None, replicate 8 None]) \<and>
   ceil_div (sum_list (map unat [5, 5, 5 :: size_t])) (unat (8 :: size_t)) = 2"
  by (simp add: allocate_def PoolAllocator_init_def new_array_def ptr_add_def ceil_div_def)

text \<open>
  The invariant \<open>offset \<le> capacity\<close> holds after the constructor and after every call, as
  long as every request is at most \<open>capacity\<close>.
\<close>

lemma allocate_all_offset_le_capacity:
  assumes "\<forall>n\<in>set ns. n \<le> C" and "unat C < 2 ^ 63"
  shows "\<exists>ps a h'. allocate_all ns (fst (PoolAllocator_init C h)) (snd (PoolAllocator_init C h))
             = Inr (ps, a, h') \<and> capacity a = C \<and> offset a \<le> capacity a"
proof -
  have "capacity (fst (PoolAllocator_init C h)) = C"
    by (simp add: PoolAllocator_init_def new_array_def)
  with allocate_all_inv [OF pool_inv_init, of ns C h] assms show ?thesis
    by (fastforce simp: pool_inv_def)
qed

text \<open>
  C3. The invariant \<open>0 \<le> offset \<le> capacity\<close> is claimed for arbitrary request sizes.
  \<^verbatim>\<open>allocate\<close> tests \<^verbatim>\<open>offset + n > capacity\<close> to keep a carve inside the current buffer,
  and the fields are documented as "how many element we can store" and "how many we
  already use"; a request larger than \<open>capacity\<close> is the case the test misses. With
  capacity 8, \<^verbatim>\<open>allocate(9)\<close> creates a second buffer of 8 elements, carves at its start and
  leaves \<open>offset = 9\<close>, above \<open>capacity = 8\<close>.
\<close>

theorem allocate_oversized_offset_exceeds_capacity:
  "allocate 9 (fst (PoolAllocator_init 8 ([] :: int heap))) (snd (PoolAllocator_init 8 ([] :: int heap)))
     = Inr (Ptr 1 0, \<lparr>buffers = [Ptr 0 0, Ptr 1 0], capacity = 8, offset = 9\<rparr>,
            [replicate 8 None, replicate 8 None]) \<and>
   \<not> (9 :: size_t) \<le> 8"
  by (simp add: allocate_def PoolAllocator_init_def new_array_def ptr_add_def)

text \<open>
  A call that finds \<^verbatim>\<open>offset + n > capacity\<close> appends one new array to the heap and its
  pointer to the buffer list, and carves at the start of that array. No array that
  existed before is changed or removed, whatever \<open>n\<close> is.
\<close>

lemma allocate_new_buffer_frame:
  assumes "capacity a < offset a + n"
  shows "allocate n a h =
     Inr (Ptr (length h) 0, a\<lparr>buffers := buffers a @ [Ptr (length h) 0], offset := n\<rparr>,
          h @ [replicate (unat (capacity a)) None])"
  using assms by (simp add: allocate_def new_array_def ptr_add_def)

text \<open>
  C6. When a call creates a new buffer, the older buffers are retained unchanged
  (\<open>allocate_new_buffer_frame\<close>), but the returned carve lies within the newest buffer
  only if the request is at most \<open>capacity\<close>. With capacity 8, \<^verbatim>\<open>allocate(9)\<close> creates a
  new buffer, returns its start as a carve of 9 elements, and the buffer has 8: writing
  the ninth element of the carve is out of bounds.
\<close>

theorem allocate_oversized_carve_overruns:
  "\<exists>p a h'. allocate 9 (fst (PoolAllocator_init 8 ([] :: int heap)))
        (snd (PoolAllocator_init 8 ([] :: int heap))) = Inr (p, a, h') \<and>
     p = last (buffers a) \<and> length (h' ! block p) = 8 \<and>
     store (ptr_add p 8) 0 h' = Inl OutOfBounds"
  by (simp add: allocate_def PoolAllocator_init_def new_array_def ptr_add_def store_def in_bounds_def)

text \<open>
  C10. In every state of the allocator with \<open>offset \<le> capacity\<close> that holds a buffer
  (the constructor creates the first one), \<^verbatim>\<open>allocate(0)\<close> changes nothing: no buffer
  is created, the heap, the buffer list and \<open>offset\<close> keep their values, and the result
  is the current carve position, the newest buffer advanced by \<open>offset\<close>.
\<close>

theorem allocate_zero_unchanged:
  assumes "offset a \<le> capacity a" and "buffers a \<noteq> []"
  shows "allocate 0 a h = Inr (ptr_add (last (buffers a)) (unat (offset a)), a, h)"
  using assms by (simp add: allocate_def not_less [symmetric])

theorem allocate_zero_unchanged_witness:
  "allocate 0 \<lparr>buffers = [Ptr 0 0], capacity = 8, offset = 3\<rparr> [replicate 8 (None :: int option)]
     = Inr (Ptr 0 3, \<lparr>buffers = [Ptr 0 0], capacity = 8, offset = 3\<rparr>, [replicate 8 None])"
  using allocate_zero_unchanged
    [of "\<lparr>buffers = [Ptr 0 0], capacity = 8, offset = 3\<rparr>" "[replicate 8 (None :: int option)]"]
  by (simp add: ptr_add_def)

section \<open>Loads, stores and chunk lists\<close>

subsection \<open>Loads and stores\<close>

lemma in_bounds_update [simp]:
  "in_bounds (h[b := (h ! b)[k := c]]) q = in_bounds h q"
  by (cases "block q = b") (auto simp: in_bounds_def)

lemma load_store_same:
  "in_bounds h p \<Longrightarrow> load p (h[block p := (h ! block p)[offs p := Some x]]) = Inr x"
  by (simp add: load_def) (simp add: in_bounds_def)

lemma load_store_other:
  "load q (h[block p := (h ! block p)[offs p := Some x]]) = load q h" if "q \<noteq> p"
proof (cases "block q = block p")
  case True
  with that have "offs q \<noteq> offs p" by (auto intro: ptr.expand)
  with True show ?thesis by (auto simp: load_def in_bounds_def)
next
  case False
  then show ?thesis by (auto simp: load_def in_bounds_def)
qed

lemma in_bounds_append: "in_bounds h q \<Longrightarrow> in_bounds (h @ bs) q"
  by (simp add: in_bounds_def nth_append)

lemma load_append: "in_bounds h q \<Longrightarrow> load q (h @ bs) = load q h"
  by (simp add: load_def in_bounds_append) (simp add: in_bounds_def nth_append)

lemma ptr_add_inj: "ptr_add p k = ptr_add p k' \<longleftrightarrow> k = k'"
  by (simp add: ptr_add_def)

subsection \<open>Chunk lists\<close>

lemma ceil_div_0 [simp]: "ceil_div 0 cs = 0"
  by (cases "cs = 0") (simp_all add: ceil_div_def)

lemma ceil_div_Suc:
  assumes "0 < cs"
  shows "ceil_div (Suc n) cs = Suc (n div cs)"
  using assms by (simp add: ceil_div_def div_add_self2)

lemma ceil_div_aligned:
  assumes "0 < cs" "n mod cs = 0"
  shows "ceil_div n cs = n div cs"
proof -
  from assms(2) have n: "n div cs * cs = n" by (simp add: mod_eq_0_iff_dvd)
  have "n + cs - 1 < Suc (n div cs) * cs" using n assms(1) by simp
  then have "(n + cs - 1) div cs < Suc (n div cs)" by (rule less_mult_imp_div_less)
  moreover have "n div cs \<le> (n + cs - 1) div cs"
    using assms(1) by (intro div_le_mono) simp
  ultimately show ?thesis by (simp add: ceil_div_def)
qed

lemma ceil_div_unaligned:
  assumes "0 < cs" "n mod cs \<noteq> 0"
  shows "ceil_div n cs = Suc (n div cs)"
proof -
  from assms(2) obtain m where n: "n = Suc m" by (cases n) auto
  have "Suc m mod cs \<noteq> 0" using assms(2) n by simp
  then have "Suc m div cs = m div cs" by (metis div_Suc)
  then show ?thesis using n assms(1) by (simp add: ceil_div_Suc)
qed

lemma div_less_ceil_div:
  assumes "0 < cs" "i < n"
  shows "i div cs < ceil_div n cs"
proof -
  have "Suc i \<le> n" using assms(2) by simp
  then have "(Suc i + cs - 1) div cs \<le> (n + cs - 1) div cs"
    by (intro div_le_mono) simp
  then have "ceil_div (Suc i) cs \<le> ceil_div n cs" by (simp add: ceil_div_def)
  then show ?thesis using assms(1) by (simp add: ceil_div_Suc)
qed

lemma slot_distinct:
  assumes ok: "cells_ok cs chs h" and cs: "0 < cs"
    and i: "i div cs < length chs" and n: "n div cs < length chs" and ne: "i \<noteq> n"
  shows "slot cs chs i \<noteq> slot cs chs n"
proof
  assume eq: "slot cs chs i = slot cs chs n"
  have mi: "i mod cs < cs" and mn: "n mod cs < cs" using cs by simp_all
  from ok i n mi mn eq have d: "i div cs = n div cs"
    unfolding cells_ok_def slot_def by blast
  with eq have "i mod cs = n mod cs" by (simp add: slot_def ptr_add_inj)
  with d have "i = n" by (metis div_mult_mod_eq)
  with ne show False by simp
qed

lemma write_elem:
  assumes ok: "cells_ok cs chs h" and con: "\<forall>i<length vs. load (slot cs chs i) h = Inr (vs ! i)"
    and len: "length chs = Suc (length vs div cs)"
    and CS: "CHUNK_SIZE \<noteq> 0" "unat CHUNK_SIZE = cs" and S: "unat S = length vs"
  shows "\<exists>h2. (case elem_ptr CHUNK_SIZE chs S of Inl e \<Rightarrow> Inl e | Inr q \<Rightarrow> store q x h) = Inr h2 \<and>
           cells_ok cs chs h2 \<and> contents cs chs h2 (vs @ [x]) \<and>
           length h2 = length h \<and> (\<forall>b. length (h2 ! b) = length (h ! b))"
proof -
  let ?n = "length vs"
  let ?q = "slot cs chs ?n"
  let ?h2 = "h[block ?q := (h ! block ?q)[offs ?q := Some x]]"
  have cs: "0 < cs" using CS by (simp add: unat_gt_0 [symmetric])
  have nd: "?n div cs < length chs" using len by simp
  have ep: "elem_ptr CHUNK_SIZE chs S = Inr ?q"
    using CS S nd by (simp add: elem_ptr_def slot_def unat_div unat_mod)
  have ib: "in_bounds h ?q"
    using ok nd cs unfolding cells_ok_def slot_def by simp
  then have st: "store ?q x h = Inr ?h2" by (simp add: store_def)
  have ok2: "cells_ok cs chs ?h2" using ok by (simp add: cells_ok_def)
  have old: "load (slot cs chs i) ?h2 = Inr (vs ! i)" if "i < ?n" for i
  proof -
    have "i div cs \<le> ?n div cs" using that by (simp add: div_le_mono)
    then have "i div cs < length chs" using nd by simp
    from slot_distinct [OF ok cs this nd] that
    have "slot cs chs i \<noteq> ?q" by simp
    then show ?thesis using con that by (simp add: load_store_other)
  qed
  have new: "load ?q ?h2 = Inr x" using ib by (rule load_store_same)
  have con2: "contents cs chs ?h2 (vs @ [x])"
    unfolding contents_def
  proof (intro conjI allI impI)
    show "length chs = ceil_div (length (vs @ [x])) cs"
      using len cs by (simp add: ceil_div_Suc)
    fix i assume "i < length (vs @ [x])"
    then consider "i < ?n" | "i = ?n" by fastforce
    then show "load (slot cs chs i) ?h2 = Inr ((vs @ [x]) ! i)"
      by cases (simp_all add: old new nth_append)
  qed
  have "length (?h2 ! b) = length (h ! b)" for b
    using ib by (cases "b = block ?q") (simp_all add: in_bounds_def)
  with ep st ok2 con2 show ?thesis by simp
qed

lemma add_chunk:
  assumes ok: "cells_ok cs chs h"
    and ext: "\<And>q. in_bounds h q \<Longrightarrow> in_bounds h' q"
    and new: "\<And>k. k < cs \<Longrightarrow> in_bounds h' (ptr_add p k)"
    and fresh: "\<And>j k k'. j < length chs \<Longrightarrow> k < cs \<Longrightarrow> k' < cs \<Longrightarrow> ptr_add (chs ! j) k \<noteq> ptr_add p k'"
  shows "cells_ok cs (chs @ [p]) h'"
  unfolding cells_ok_def
proof (intro conjI allI impI)
  fix j k assume "j < length (chs @ [p])" "k < cs"
  then show "in_bounds h' (ptr_add ((chs @ [p]) ! j) k)"
    using ok ext new by (cases "j < length chs") (auto simp: cells_ok_def nth_append)
next
  fix j j' k k'
  assume j: "j < length (chs @ [p])" and j': "j' < length (chs @ [p])"
    and k: "k < cs" and k': "k' < cs"
    and eq: "ptr_add ((chs @ [p]) ! j) k = ptr_add ((chs @ [p]) ! j') k'"
  show "j = j'"
  proof (cases "j < length chs"; cases "j' < length chs")
    assume "j < length chs" "j' < length chs"
    with ok k k' eq show ?thesis unfolding cells_ok_def by (auto simp: nth_append)
  next
    assume a: "j < length chs" "\<not> j' < length chs"
    with j' have "j' = length chs" by simp
    with a eq fresh [OF a(1) k k'] show ?thesis by (simp add: nth_append)
  next
    assume a: "\<not> j < length chs" "j' < length chs"
    with j have "j = length chs" by simp
    with a eq fresh [OF a(2) k' k] show ?thesis by (simp add: nth_append)
  next
    assume "\<not> j < length chs" "\<not> j' < length chs"
    with j j' show ?thesis by simp
  qed
qed

lemma contents_extend:
  assumes ok: "cells_ok cs chs h" and cs: "0 < cs"
    and con: "contents cs chs h vs"
  shows "\<forall>i<length vs. load (slot cs (chs @ [p]) i) (h @ bs) = Inr (vs ! i)"
proof (intro allI impI)
  fix i assume i: "i < length vs"
  have d: "i div cs < length chs"
    using div_less_ceil_div [OF cs i] con by (simp add: contents_def)
  then have "in_bounds h (slot cs chs i)"
    using ok cs by (simp add: cells_ok_def slot_def)
  then have "load (slot cs chs i) (h @ bs) = load (slot cs chs i) h" by (rule load_append)
  moreover have "slot cs (chs @ [p]) i = slot cs chs i" using d by (simp add: slot_def nth_append)
  ultimately show "load (slot cs (chs @ [p]) i) (h @ bs) = Inr (vs ! i)"
    using con i by (simp add: contents_def)
qed

lemma push_back_step:
  assumes inv: "cv_inv CHUNK_SIZE base v h vs" and CS: "CHUNK_SIZE \<noteq> 0"
    and lt: "Suc (length vs) < 2 ^ 64"
  shows "\<exists>v' h'. push_back CHUNK_SIZE x v h = Inr (v', h') \<and>
           cv_inv CHUNK_SIZE base v' h' (vs @ [x])"
proof -
  let ?cs = "unat CHUNK_SIZE"
  have cs: "0 < ?cs" using CS by (simp add: unat_gt_0)
  from inv have S: "unat (size_v v) = length vs" and ok: "cells_ok ?cs (chunks v) h"
    and con: "contents ?cs (chunks v) h vs" and hl: "length h = base + length (chunks v)"
    by (simp_all add: cv_inv_def)
  have S1: "unat (size_v v + 1) = length (vs @ [x])" using S lt by (simp add: size_Suc)
  show ?thesis
  proof (cases "size_v v mod CHUNK_SIZE = 0")
    case True
    then have al: "length vs mod ?cs = 0" using S by (simp add: size_aligned)
    let ?p = "Ptr (length h) 0"
    let ?h1 = "h @ [replicate ?cs None]"
    have blk: "block (chunks v ! j) < length h" if "j < length (chunks v)" for j
      using ok that cs unfolding cells_ok_def in_bounds_def ptr_add_def by fastforce
    have ok1: "cells_ok ?cs (chunks v @ [?p]) ?h1"
    proof (rule add_chunk [OF ok])
      show "in_bounds ?h1 q" if "in_bounds h q" for q using that by (rule in_bounds_append)
      show "in_bounds ?h1 (ptr_add ?p k)" if "k < ?cs" for k
        using that by (simp add: in_bounds_def ptr_add_def)
      show "ptr_add (chunks v ! j) k \<noteq> ptr_add ?p k'" if "j < length (chunks v)" for j k k'
        using blk [OF that] by (auto simp: ptr_add_def)
    qed
    have con1: "\<forall>i<length vs. load (slot ?cs (chunks v @ [?p]) i) ?h1 = Inr (vs ! i)"
      using ok cs con by (rule contents_extend)
    have len1: "length (chunks v @ [?p]) = Suc (length vs div ?cs)"
      using con cs al by (simp add: contents_def ceil_div_aligned)
    from write_elem [OF ok1 con1 len1 CS refl S, of x]
    obtain h2 where w: "(case elem_ptr CHUNK_SIZE (chunks v @ [?p]) (size_v v) of
          Inl e \<Rightarrow> Inl e | Inr q \<Rightarrow> store q x ?h1) = Inr h2"
      and ok2: "cells_ok ?cs (chunks v @ [?p]) h2"
      and con2: "contents ?cs (chunks v @ [?p]) h2 (vs @ [x])"
      and l2: "length h2 = length ?h1"
      by blast
    have "push_back CHUNK_SIZE x v h = Inr (v\<lparr>chunks := chunks v @ [?p], size_v := size_v v + 1\<rparr>, h2)"
      using CS True w by (auto simp: push_back_def new_array_def split: sum.splits)
    then show ?thesis using ok2 con2 S1 l2 hl by (simp add: cv_inv_def)
  next
    case False
    then have al: "length vs mod ?cs \<noteq> 0" using S by (simp add: size_aligned)
    have len1: "length (chunks v) = Suc (length vs div ?cs)"
      using con cs al by (simp add: contents_def ceil_div_unaligned)
    from con have con1: "\<forall>i<length vs. load (slot ?cs (chunks v) i) h = Inr (vs ! i)"
      by (simp add: contents_def)
    from write_elem [OF ok con1 len1 CS refl S, of x]
    obtain h2 where w: "(case elem_ptr CHUNK_SIZE (chunks v) (size_v v) of
          Inl e \<Rightarrow> Inl e | Inr q \<Rightarrow> store q x h) = Inr h2"
      and ok2: "cells_ok ?cs (chunks v) h2"
      and con2: "contents ?cs (chunks v) h2 (vs @ [x])"
      and l2: "length h2 = length h"
      by blast
    have "push_back CHUNK_SIZE x v h = Inr (v\<lparr>size_v := size_v v + 1\<rparr>, h2)"
      using CS False w by (auto simp: push_back_def split: sum.splits)
    then show ?thesis using ok2 con2 S1 l2 hl by (simp add: cv_inv_def)
  qed
qed

lemma push_back_all_inv:
  assumes "cv_inv CHUNK_SIZE base v h vs" "CHUNK_SIZE \<noteq> 0" "length vs + length xs < 2 ^ 64"
  shows "\<exists>v' h'. push_back_all CHUNK_SIZE xs v h = Inr (v', h') \<and>
           cv_inv CHUNK_SIZE base v' h' (vs @ xs)"
  using assms
proof (induction xs arbitrary: v h vs)
  case Nil
  then show ?case by simp
next
  case (Cons x xs)
  from Cons.prems(3) have "Suc (length vs) < 2 ^ 64" by simp
  from push_back_step [OF Cons.prems(1,2) this, of x]
  obtain v1 h1 where st: "push_back CHUNK_SIZE x v h = Inr (v1, h1)"
    and inv1: "cv_inv CHUNK_SIZE base v1 h1 (vs @ [x])" by blast
  from Cons.prems(3) have "length (vs @ [x]) + length xs < 2 ^ 64" by simp
  from Cons.IH [OF inv1 Cons.prems(2) this] st show ?case by simp
qed

lemma cv_inv_init: "cv_inv CHUNK_SIZE (length h) ChunkedVector_init h []"
  by (simp add: cv_inv_def ChunkedVector_init_def cells_ok_def contents_def)

lemma pool_inv_heap:
  assumes "pool_inv a h cs" "length h2 = length h" "\<forall>b. length (h2 ! b) = length (h ! b)"
  shows "pool_inv a h2 cs"
  using assms by (simp add: pool_inv_def)

lemma pool_inv_cells_ok:
  assumes inv: "pool_inv a h (map (\<lambda>c. (c, CHUNK_SIZE)) chs)" and CS: "CHUNK_SIZE \<noteq> 0"
  shows "cells_ok (unat CHUNK_SIZE) chs h"
  unfolding cells_ok_def
proof (intro conjI allI impI)
  let ?cs = "unat CHUNK_SIZE"
  fix j k assume j: "j < length chs" and k: "k < ?cs"
  then have "(chs ! j, CHUNK_SIZE) \<in> set (map (\<lambda>c. (c, CHUNK_SIZE)) chs)" by simp
  with inv obtain b where "b \<in> set (buffers a)" "block (chs ! j) = block b"
    and fit: "offs (chs ! j) + ?cs \<le> unat (capacity a)"
    unfolding pool_inv_def by fastforce
  with inv have "block (chs ! j) < length h" "length (h ! block (chs ! j)) = unat (capacity a)"
    unfolding pool_inv_def by auto
  with fit k show "in_bounds h (ptr_add (chs ! j) k)"
    by (simp add: in_bounds_def ptr_add_def)
next
  let ?cs = "unat CHUNK_SIZE"
  from inv have sw: "sorted_wrt carve_before (map (\<lambda>c. (c, CHUNK_SIZE)) chs)"
    by (simp add: pool_inv_def)
  have before: "ptr_add (chs ! i) k \<noteq> ptr_add (chs ! j) k'"
    if "i < j" "j < length chs" "k < ?cs" for i j k k'
  proof -
    from sw that have "carve_before (chs ! i, CHUNK_SIZE) (chs ! j, CHUNK_SIZE)"
      by (auto simp: sorted_wrt_iff_nth_less)
    with that(3) show ?thesis by (auto simp: carve_before_def ptr_add_def)
  qed
  fix j j' k k'
  assume "j < length chs" "j' < length chs" "k < ?cs" "k' < ?cs"
    and eq: "ptr_add (chs ! j) k = ptr_add (chs ! j') k'"
  then show "j = j'"
    using before [of j j' k k'] before [of j' j k' k] by (cases j j' rule: linorder_cases) auto
qed

lemma push_back_pa_step:
  assumes inv: "pa_inv CHUNK_SIZE v h vs" and CS: "CHUNK_SIZE \<noteq> 0" "CHUNK_SIZE \<le> 2048"
    and lt: "Suc (length vs) < 2 ^ 64"
  shows "\<exists>v' h'. push_back_pa CHUNK_SIZE x v h = Inr (v', h') \<and> pa_inv CHUNK_SIZE v' h' (vs @ [x])"
proof -
  let ?cs = "unat CHUNK_SIZE"
  let ?carves = "\<lambda>chs. map (\<lambda>c. (c, CHUNK_SIZE)) chs"
  have cs: "0 < ?cs" using CS by (simp add: unat_gt_0)
  from inv have S: "unat (size_pa v) = length vs" and cap: "capacity (allocator v) = 2048"
    and pinv: "pool_inv (allocator v) h (?carves (chunks_pa v))"
    and con: "contents ?cs (chunks_pa v) h vs"
    by (simp_all add: pa_inv_def)
  have ok: "cells_ok ?cs (chunks_pa v) h" using pinv CS(1) by (rule pool_inv_cells_ok)
  have S1: "unat (size_pa v + 1) = length (vs @ [x])" using S lt by (simp add: size_Suc)
  show ?thesis
  proof (cases "size_pa v mod CHUNK_SIZE = 0")
    case True
    then have al: "length vs mod ?cs = 0" using S by (simp add: size_aligned)
    have "CHUNK_SIZE \<le> capacity (allocator v)" "unat (capacity (allocator v)) < 2 ^ 63"
      using CS cap by simp_all
    from allocate_step [OF pinv this]
    obtain p a' h' bs where al': "allocate CHUNK_SIZE (allocator v) h = Inr (p, a', h')"
      and pinv': "pool_inv a' h' (?carves (chunks_pa v @ [p]))"
      and cap': "capacity a' = 2048" and h': "h' = h @ bs"
      using cap by auto
    have ok1: "cells_ok ?cs (chunks_pa v @ [p]) h'" using pinv' CS(1) by (rule pool_inv_cells_ok)
    have con1: "\<forall>i<length vs. load (slot ?cs (chunks_pa v @ [p]) i) h' = Inr (vs ! i)"
      unfolding h' using ok cs con by (rule contents_extend)
    have len1: "length (chunks_pa v @ [p]) = Suc (length vs div ?cs)"
      using con cs al by (simp add: contents_def ceil_div_aligned)
    from write_elem [OF ok1 con1 len1 CS(1) refl S, of x]
    obtain h2 where w: "(case elem_ptr CHUNK_SIZE (chunks_pa v @ [p]) (size_pa v) of
          Inl e \<Rightarrow> Inl e | Inr q \<Rightarrow> store q x h') = Inr h2"
      and con2: "contents ?cs (chunks_pa v @ [p]) h2 (vs @ [x])"
      and l2: "length h2 = length h'" "\<forall>b. length (h2 ! b) = length (h' ! b)"
      by blast
    have pinv2: "pool_inv a' h2 (?carves (chunks_pa v @ [p]))"
      using pinv' l2 by (rule pool_inv_heap)
    have "push_back_pa CHUNK_SIZE x v h =
        Inr (v\<lparr>chunks_pa := chunks_pa v @ [p], allocator := a', size_pa := size_pa v + 1\<rparr>, h2)"
      using CS(1) True w al' by (auto simp: push_back_pa_def split: sum.splits)
    then show ?thesis using pinv2 con2 S1 cap' by (simp add: pa_inv_def)
  next
    case False
    then have al: "length vs mod ?cs \<noteq> 0" using S by (simp add: size_aligned)
    have len1: "length (chunks_pa v) = Suc (length vs div ?cs)"
      using con cs al by (simp add: contents_def ceil_div_unaligned)
    from con have con1: "\<forall>i<length vs. load (slot ?cs (chunks_pa v) i) h = Inr (vs ! i)"
      by (simp add: contents_def)
    from write_elem [OF ok con1 len1 CS(1) refl S, of x]
    obtain h2 where w: "(case elem_ptr CHUNK_SIZE (chunks_pa v) (size_pa v) of
          Inl e \<Rightarrow> Inl e | Inr q \<Rightarrow> store q x h) = Inr h2"
      and con2: "contents ?cs (chunks_pa v) h2 (vs @ [x])"
      and l2: "length h2 = length h" "\<forall>b. length (h2 ! b) = length (h ! b)"
      by blast
    have pinv2: "pool_inv (allocator v) h2 (?carves (chunks_pa v))"
      using pinv l2 by (rule pool_inv_heap)
    have "push_back_pa CHUNK_SIZE x v h = Inr (v\<lparr>size_pa := size_pa v + 1\<rparr>, h2)"
      using CS(1) False w by (auto simp: push_back_pa_def split: sum.splits)
    then show ?thesis using pinv2 con2 S1 cap by (simp add: pa_inv_def)
  qed
qed

lemma push_back_all_pa_inv:
  assumes "pa_inv CHUNK_SIZE v h vs" "CHUNK_SIZE \<noteq> 0" "CHUNK_SIZE \<le> 2048"
    "length vs + length xs < 2 ^ 64"
  shows "\<exists>v' h'. push_back_all_pa CHUNK_SIZE xs v h = Inr (v', h') \<and> pa_inv CHUNK_SIZE v' h' (vs @ xs)"
  using assms
proof (induction xs arbitrary: v h vs)
  case Nil
  then show ?case by simp
next
  case (Cons x xs)
  from Cons.prems(4) have "Suc (length vs) < 2 ^ 64" by simp
  from push_back_pa_step [OF Cons.prems(1,2,3) this, of x]
  obtain v1 h1 where st: "push_back_pa CHUNK_SIZE x v h = Inr (v1, h1)"
    and inv1: "pa_inv CHUNK_SIZE v1 h1 (vs @ [x])" by blast
  from Cons.prems(4) have "length (vs @ [x]) + length xs < 2 ^ 64" by simp
  from Cons.IH [OF inv1 Cons.prems(2,3) this] st show ?case by simp
qed

lemma pa_inv_init:
  "pa_inv CHUNK_SIZE (fst (ChunkedVectorPoolAllocation_init h)) (snd (ChunkedVectorPoolAllocation_init h)) []"
  using pool_inv_init [of 2048 h]
  by (simp add: pa_inv_def ChunkedVectorPoolAllocation_init_def contents_def split_beta
      PoolAllocator_init_def new_array_def)

lemma read_elem_word:
  assumes con: "contents cs chs h vs" and CS: "CHUNK_SIZE \<noteq> 0" "unat CHUNK_SIZE = cs"
    and i: "unat i < length vs"
  shows "(case elem_ptr CHUNK_SIZE chs i of Inl e \<Rightarrow> Inl e | Inr q \<Rightarrow> load q h) = Inr (vs ! unat i)"
proof -
  have cs: "0 < cs" using CS by (simp add: unat_gt_0 [symmetric])
  have "unat i div cs < length chs"
    using div_less_ceil_div [OF cs i] con by (simp add: contents_def)
  then have "elem_ptr CHUNK_SIZE chs i = Inr (slot cs chs (unat i))"
    using CS by (simp add: elem_ptr_def slot_def unat_div unat_mod)
  then show ?thesis using con i by (simp add: contents_def)
qed

lemma plain_run:
  assumes "CHUNK_SIZE \<noteq> 0" "length vs < 2 ^ 64"
  shows "\<exists>v h'. push_back_all CHUNK_SIZE vs ChunkedVector_init h = Inr (v, h') \<and>
           unat (get_size v) = length vs \<and>
           length (chunks v) = ceil_div (length vs) (unat CHUNK_SIZE) \<and>
           length h' = length h + length (chunks v) \<and>
           cells_ok (unat CHUNK_SIZE) (chunks v) h' \<and>
           (\<forall>i. i < get_size v \<longrightarrow> subscript CHUNK_SIZE i v h' = Inr (vs ! unat i))"
proof -
  from push_back_all_inv [OF cv_inv_init assms(1), of vs h] assms(2)
  obtain v h' where run: "push_back_all CHUNK_SIZE vs ChunkedVector_init h = Inr (v, h')"
    and inv: "cv_inv CHUNK_SIZE (length h) v h' vs" by auto
  from inv have S: "unat (get_size v) = length vs"
    and con: "contents (unat CHUNK_SIZE) (chunks v) h' vs"
    and hl: "length h' = length h + length (chunks v)"
    and ok: "cells_ok (unat CHUNK_SIZE) (chunks v) h'"
    by (simp_all add: cv_inv_def get_size_def)
  have "subscript CHUNK_SIZE i v h' = Inr (vs ! unat i)" if "i < get_size v" for i
  proof -
    from that S have "unat i < length vs" by (simp add: word_less_nat_alt)
    from read_elem_word [OF con assms(1) refl this] show ?thesis by (simp add: subscript_def)
  qed
  with run S con hl ok show ?thesis by (auto simp: contents_def)
qed

lemma pooled_run:
  assumes "CHUNK_SIZE \<noteq> 0" "CHUNK_SIZE \<le> 2048" "length vs < 2 ^ 64"
  shows "\<exists>v h'. push_back_all_pa CHUNK_SIZE vs (fst (ChunkedVectorPoolAllocation_init h))
             (snd (ChunkedVectorPoolAllocation_init h)) = Inr (v, h') \<and>
           unat (get_size_pa v) = length vs \<and>
           length (chunks_pa v) = ceil_div (length vs) (unat CHUNK_SIZE) \<and>
           cells_ok (unat CHUNK_SIZE) (chunks_pa v) h' \<and>
           (\<forall>i. i < get_size_pa v \<longrightarrow> subscript_pa CHUNK_SIZE i v h' = Inr (vs ! unat i))"
proof -
  from push_back_all_pa_inv [OF pa_inv_init assms(1,2), of vs h] assms(3)
  obtain v h' where run: "push_back_all_pa CHUNK_SIZE vs (fst (ChunkedVectorPoolAllocation_init h))
             (snd (ChunkedVectorPoolAllocation_init h)) = Inr (v, h')"
    and inv: "pa_inv CHUNK_SIZE v h' vs" by auto
  from inv have S: "unat (get_size_pa v) = length vs"
    and con: "contents (unat CHUNK_SIZE) (chunks_pa v) h' vs"
    and pinv: "pool_inv (allocator v) h' (map (\<lambda>c. (c, CHUNK_SIZE)) (chunks_pa v))"
    by (simp_all add: pa_inv_def get_size_pa_def)
  have ok: "cells_ok (unat CHUNK_SIZE) (chunks_pa v) h'"
    using pinv assms(1) by (rule pool_inv_cells_ok)
  have "subscript_pa CHUNK_SIZE i v h' = Inr (vs ! unat i)" if "i < get_size_pa v" for i
  proof -
    from that S have "unat i < length vs" by (simp add: word_less_nat_alt)
    from read_elem_word [OF con assms(1) refl this] show ?thesis by (simp add: subscript_pa_def)
  qed
  with run S con ok show ?thesis by (auto simp: contents_def)
qed

section \<open>The chunked sequences\<close>

text \<open>
  \<open>plain_run\<close> and \<open>pooled_run\<close> are the contract of the two containers where it holds.
  For every \<open>CHUNK_SIZE\<close> other than 0 and every list \<open>vs\<close> of fewer than \<open>2 ^ 64\<close>
  values, appending \<open>vs\<close> in order to an empty \<^verbatim>\<open>ChunkedVector\<close> succeeds; afterwards
  \<^verbatim>\<open>get_size()\<close> is the number of values, \<^verbatim>\<open>operator[](i)\<close> returns the value of the
  \<open>i\<close>-th call for every \<open>i\<close> below the size, and there are \<open>ceil(N / CHUNK_SIZE)\<close> chunks,
  each a new array of the heap. The same holds for \<^verbatim>\<open>ChunkedVectorPoolAllocation\<close>, the
  chunks being disjoint carves of the pool, when \<open>CHUNK_SIZE\<close> is at most 2048, the
  capacity of the buffers of the pool. The scenario of the specification is an
  instance: ten appends of 0 to 9 with \<open>CHUNK_SIZE = 4\<close>.
\<close>

lemma ten_appends_chunk_size_4:
  "\<exists>v h'. push_back_all 4 [0, 1, 2, 3, 4, 5, 6, 7, 8, 9 :: int] ChunkedVector_init [] = Inr (v, h') \<and>
     unat (get_size v) = 10 \<and> length (chunks v) = 3 \<and> length h' = 3 \<and>
     subscript 4 7 v h' = Inr 7 \<and> subscript 4 9 v h' = Inr 9"
proof -
  let ?vs = "[0, 1, 2, 3, 4, 5, 6, 7, 8, 9 :: int]"
  have hyp: "(4 :: size_t) \<noteq> 0" "length ?vs < 2 ^ 64" by simp_all
  have c: "ceil_div (length ?vs) (unat (4 :: size_t)) = 3" by (simp add: ceil_div_def)
  from plain_run [OF hyp, of "[]"]
  obtain v h' where run: "push_back_all 4 ?vs ChunkedVector_init [] = Inr (v, h')"
    and sz: "unat (get_size v) = length ?vs"
    and ch: "length (chunks v) = ceil_div (length ?vs) (unat (4 :: size_t))"
    and hl: "length h' = length ([] :: int heap) + length (chunks v)"
    and rd: "\<And>i. i < get_size v \<Longrightarrow> subscript 4 i v h' = Inr (?vs ! unat i)"
    by blast
  from sz have lt: "7 < get_size v" "9 < get_size v" by (simp_all add: word_less_nat_alt)
  have "subscript 4 7 v h' = Inr 7" "subscript 4 9 v h' = Inr 9"
    using rd [OF lt(1)] rd [OF lt(2)] by simp_all
  with run sz ch hl c show ?thesis by simp
qed

subsection \<open>A chunk larger than a buffer of the pool\<close>

text \<open>
  \<^verbatim>\<open>ChunkedVectorPoolAllocation\<close> asks its pool for \<^verbatim>\<open>allocate(CHUNK_SIZE)\<close>, and the pool
  has buffers of 2048 elements whatever \<open>CHUNK_SIZE\<close> is. With \<open>CHUNK_SIZE\<close> above 2048
  the first append gets the start of a new buffer of 2048 elements as its chunk of
  \<open>CHUNK_SIZE\<close> elements (\<^verbatim>\<open>allocate\<close> does not check that the request fits into a
  buffer), the appends up to the 2048th fill that buffer, and the next one writes past
  its end.
\<close>

lemma oversized_first:
  assumes "2048 < CHUNK_SIZE"
  shows "\<exists>v h'. push_back_pa CHUNK_SIZE x (fst (ChunkedVectorPoolAllocation_init h))
             (snd (ChunkedVectorPoolAllocation_init h)) = Inr (v, h') \<and> one_short_chunk 1 v h'"
proof -
  from assms have CS: "CHUNK_SIZE \<noteq> 0" by auto
  show ?thesis
    using assms CS
    by (simp add: push_back_pa_def ChunkedVectorPoolAllocation_init_def PoolAllocator_init_def
        new_array_def allocate_def elem_ptr_def ptr_add_def store_def in_bounds_def
        one_short_chunk_def nth_append)
qed

lemma oversized_next:
  assumes inv: "one_short_chunk k v h" and k: "0 < k" "k < 2048" and CS: "2048 < CHUNK_SIZE"
  shows "\<exists>v' h'. push_back_pa CHUNK_SIZE x v h = Inr (v', h') \<and> one_short_chunk (Suc k) v' h'"
proof -
  from CS have cs: "2048 < unat CHUNK_SIZE" by (simp add: word_less_nat_alt)
  then have CS0: "CHUNK_SIZE \<noteq> 0" by auto
  from inv have S: "unat (size_pa v) = k" by (simp add: one_short_chunk_def)
  have m: "unat (size_pa v mod CHUNK_SIZE) = k" and d: "unat (size_pa v div CHUNK_SIZE) = 0"
    using S k cs by (simp_all add: unat_mod unat_div)
  have nz: "size_pa v mod CHUNK_SIZE \<noteq> 0"
  proof
    assume "size_pa v mod CHUNK_SIZE = 0"
    then have "unat (size_pa v mod CHUNK_SIZE) = 0" by simp
    with m k show False by simp
  qed
  have S1: "unat (size_pa v + 1) = Suc k" using S k by (intro size_Suc [THEN trans]) simp_all
  show ?thesis
    using inv nz m d S1 CS0 k
    by (auto simp: push_back_pa_def elem_ptr_def ptr_add_def store_def in_bounds_def
        one_short_chunk_def)
qed

lemma oversized_overrun:
  assumes inv: "one_short_chunk 2048 v h" and CS: "2048 < CHUNK_SIZE"
  shows "push_back_pa CHUNK_SIZE x v h = Inl OutOfBounds"
proof -
  from CS have cs: "2048 < unat CHUNK_SIZE" by (simp add: word_less_nat_alt)
  then have CS0: "CHUNK_SIZE \<noteq> 0" by auto
  from inv have S: "unat (size_pa v) = 2048" by (simp add: one_short_chunk_def)
  have m: "unat (size_pa v mod CHUNK_SIZE) = 2048" and d: "unat (size_pa v div CHUNK_SIZE) = 0"
    using S cs by (simp_all add: unat_mod unat_div)
  have nz: "size_pa v mod CHUNK_SIZE \<noteq> 0"
  proof
    assume "size_pa v mod CHUNK_SIZE = 0"
    then have "unat (size_pa v mod CHUNK_SIZE) = 0" by simp
    with m show False by simp
  qed
  show ?thesis
    using inv nz m d CS0
    by (auto simp: push_back_pa_def elem_ptr_def ptr_add_def store_def in_bounds_def
        one_short_chunk_def)
qed

lemma oversized_run:
  assumes "one_short_chunk k v h" "0 < k" "k \<le> 2048" "2048 < k + length xs" "2048 < CHUNK_SIZE"
  shows "push_back_all_pa CHUNK_SIZE xs v h = Inl OutOfBounds"
  using assms
proof (induction xs arbitrary: k v h)
  case Nil
  then show ?case by simp
next
  case (Cons x xs)
  show ?case
  proof (cases "k = 2048")
    case True
    with oversized_overrun [of v h CHUNK_SIZE x] Cons.prems show ?thesis by simp
  next
    case False
    with Cons.prems have lt: "k < 2048" by simp
    from oversized_next [OF Cons.prems(1,2) lt Cons.prems(5), of x]
    obtain v' h' where st: "push_back_pa CHUNK_SIZE x v h = Inr (v', h')"
      and inv': "one_short_chunk (Suc k) v' h'" by blast
    from Cons.IH [OF inv'] lt Cons.prems(4,5) st show ?thesis by simp
  qed
qed

lemma pooled_oversized_chunk_overruns:
  assumes "2048 < CHUNK_SIZE" "2048 < length vs"
  shows "push_back_all_pa CHUNK_SIZE vs (fst (ChunkedVectorPoolAllocation_init h))
           (snd (ChunkedVectorPoolAllocation_init h)) = Inl OutOfBounds"
proof (cases vs)
  case Nil
  with assms show ?thesis by simp
next
  case (Cons x xs)
  from oversized_first [OF assms(1), of x h]
  obtain v h' where st: "push_back_pa CHUNK_SIZE x (fst (ChunkedVectorPoolAllocation_init h))
             (snd (ChunkedVectorPoolAllocation_init h)) = Inr (v, h')"
    and inv: "one_short_chunk 1 v h'" by blast
  from assms(2) Cons have "2048 < 1 + length xs" by simp
  from oversized_run [OF inv _ _ this assms(1)] st Cons show ?thesis by simp
qed

text \<open>
  C1. \<^verbatim>\<open>ChunkedVectorPoolAllocation<int, 2049>\<close> and 2049 appends: the last
  \<^verbatim>\<open>push_back\<close> writes \<^verbatim>\<open>chunks[0][2048]\<close> into a buffer of 2048 elements, which is
  undefined; no state is reached in which \<^verbatim>\<open>get_size()\<close> is 2049 and \<^verbatim>\<open>operator[]\<close>
  returns the appended values.
\<close>

theorem pooled_2049_appends_out_of_bounds:
  "push_back_all_pa 2049 (replicate 2049 (7 :: int))
     (fst (ChunkedVectorPoolAllocation_init ([] :: int heap)))
     (snd (ChunkedVectorPoolAllocation_init ([] :: int heap))) = Inl OutOfBounds"
  by (rule pooled_oversized_chunk_overruns) simp_all


text \<open>
  C4. With \<open>CHUNK_SIZE = 2049\<close> and the same 2049 appends the two containers differ:
  \<^verbatim>\<open>ChunkedVector\<close> ends with size 2049 and returns the appended value at index 2048,
  \<^verbatim>\<open>ChunkedVectorPoolAllocation\<close> runs out of its buffer in the last append.
\<close>

theorem pooled_2049_differs_from_plain:
  "(\<exists>v h'. push_back_all 2049 (replicate 2049 (7 :: int)) ChunkedVector_init [] = Inr (v, h') \<and>
      unat (get_size v) = 2049 \<and> subscript 2049 2048 v h' = Inr 7) \<and>
   push_back_all_pa 2049 (replicate 2049 (7 :: int))
     (fst (ChunkedVectorPoolAllocation_init ([] :: int heap)))
     (snd (ChunkedVectorPoolAllocation_init ([] :: int heap))) = Inl OutOfBounds"
proof -
  let ?vs = "replicate 2049 (7 :: int)"
  have hyp: "(2049 :: size_t) \<noteq> 0" "length ?vs < 2 ^ 64" by simp_all
  from plain_run [OF hyp, of "[]"]
  obtain v h' where run: "push_back_all 2049 ?vs ChunkedVector_init [] = Inr (v, h')"
    and sz: "unat (get_size v) = length ?vs"
    and rd: "\<And>i. i < get_size v \<Longrightarrow> subscript 2049 i v h' = Inr (?vs ! unat i)"
    by blast
  from sz have "2048 < get_size v" by (simp add: word_less_nat_alt)
  from rd [OF this] have "subscript 2049 2048 v h' = Inr 7" by simp
  moreover have "push_back_all_pa 2049 ?vs
     (fst (ChunkedVectorPoolAllocation_init ([] :: int heap)))
     (snd (ChunkedVectorPoolAllocation_init ([] :: int heap))) = Inl OutOfBounds"
    by (rule pooled_oversized_chunk_overruns) simp_all
  ultimately show ?thesis using run sz by simp
qed

text \<open>
  C8, as the code has it. The pool of a \<^verbatim>\<open>ChunkedVectorPoolAllocation\<close> is constructed by
  \<^verbatim>\<open>PoolAllocator<T> allocator{ 2048 }\<close>: its capacity is 2048 whatever \<open>CHUNK_SIZE\<close> is.
  That is a whole multiple of the default \<open>CHUNK_SIZE = 64\<close>, and of no \<open>CHUNK_SIZE\<close>
  that does not divide 2048.
\<close>

theorem pool_capacity_is_2048:
  "capacity (allocator (fst (ChunkedVectorPoolAllocation_init h))) = 2048 \<and>
   whole_multiple (capacity (allocator (fst (ChunkedVectorPoolAllocation_init h)))) DEFAULT_CHUNK_SIZE \<and>
   whole_multiple (capacity (allocator (fst (ChunkedVectorPoolAllocation_init h)))) CHUNK_SIZE
     = (CHUNK_SIZE \<noteq> 0 \<and> 2048 mod CHUNK_SIZE = 0)"
  by (simp add: ChunkedVectorPoolAllocation_init_def PoolAllocator_init_def new_array_def
      whole_multiple_def DEFAULT_CHUNK_SIZE_def)

text \<open>\<^verbatim>\<open>ChunkedVectorPoolAllocation<int, 3>\<close>: 2048 is not a multiple of 3.\<close>

theorem pool_capacity_multiple_counterexample:
  "\<not> whole_multiple (capacity (allocator (fst (ChunkedVectorPoolAllocation_init ([] :: int heap))))) 3"
  by (simp add: ChunkedVectorPoolAllocation_init_def PoolAllocator_init_def new_array_def
      whole_multiple_def)

section \<open>The drivers\<close>

text \<open>
  After the fill loop the vector has \<open>n\<close> elements. The scan loop of
  \<^verbatim>\<open>benchmarkStdVector\<close> never leaves through its condition when the vector is not empty,
  since \<open>k\<close> stays 0: \<open>i\<close> runs up to the size of the vector, where the read is out of
  bounds.
\<close>

lemma length_fill_std: "unat k \<le> unat n \<Longrightarrow> length (fill_std n k v) = length v + (unat n - unat k)"
proof (induction n k v rule: fill_std.induct)
  case (1 n k v)
  show ?case
  proof (cases "k < n")
    case True
    then have s: "unat (k + 1) = Suc (unat k)" by (rule word_succ_lt)
    from True have "unat k < unat n" by (simp add: word_less_nat_alt)
    with "1.IH" [OF True] s show ?thesis using True by (subst fill_std.simps) simp
  next
    case False
    with "1.prems" have "unat k = unat n" by (simp add: word_less_nat_alt)
    with False show ?thesis by (subst fill_std.simps) simp
  qed
qed

lemma scan_std_overruns:
  assumes "length v < 2 ^ 64" "length v \<noteq> 0" "unat i \<le> length v"
  shows "scan_std v 0 i s = Some (Inl OutOfBounds)"
  using assms(3)
proof (induction "length v - unat i" arbitrary: i s)
  case 0
  have k: "(0 :: size_t) < of_nat (length v)"
    using assms(1,2) by (simp add: word_less_nat_alt unat_of_nat)
  from 0 have "\<not> unat i < length v" by simp
  with k show ?case by (subst scan_std.simps) simp
next
  case (Suc d)
  have k: "(0 :: size_t) < of_nat (length v)"
    using assms(1,2) by (simp add: word_less_nat_alt unat_of_nat)
  from Suc.hyps(2) have lt: "unat i < length v" by simp
  with assms(1) have s: "unat (i + 1) = Suc (unat i)" by (intro size_Suc) simp
  from Suc.hyps(1) [of "i + 1"] Suc.hyps(2) lt s
  have "scan_std v 0 (i + 1) (s + sint (v ! unat i)) = Some (Inl OutOfBounds)" by simp
  with k lt show ?case by (subst scan_std.simps) simp
qed

lemma benchmarkStdVector_overruns:
  assumes "n \<noteq> 0" "(0 :: size_t) < scast repeat"
  shows "benchmarkStdVector n repeat = Some (Inl OutOfBounds)"
proof -
  let ?v = "fill_std n 0 []"
  have len: "length ?v = unat n" using length_fill_std [of 0 n "[]"] by simp
  have "unat n < 2 ^ 64" using unsigned_less [of n, where ?'a = nat] by simp
  moreover have "unat n \<noteq> 0" using assms(1) by (simp add: unat_eq_zero)
  ultimately have "scan_std ?v 0 0 0 = Some (Inl OutOfBounds)"
    using len by (intro scan_std_overruns) simp_all
  then show ?thesis using assms(2)
    unfolding benchmarkStdVector_def by (subst benchmarkStdVector_loop.simps) simp
qed

text \<open>
  The two chunked drivers return for every \<open>n\<close> and every bound of the repetitions:
  their fill loops keep the invariants of the containers, and their scan loops advance
  \<open>k\<close> and read below the size only.
\<close>

lemma word_succ_le:
  fixes k n :: size_t
  assumes "k < n"
  shows "k + 1 \<le> n"
  using assms word_succ_lt [OF assms] by (simp add: word_le_nat_alt word_less_nat_alt)

lemma fill_cv_run:
  assumes "cv_inv DEFAULT_CHUNK_SIZE base v h vs" "unat k = length vs" "k \<le> n"
  shows "\<exists>v' h' vs'. fill_cv n k v h = Inr (v', h') \<and>
           cv_inv DEFAULT_CHUNK_SIZE base v' h' vs' \<and> length vs' = unat n"
  using assms
proof (induction n k v h arbitrary: vs rule: fill_cv.induct)
  case (1 n k v h)
  show ?case
  proof (cases "k < n")
    case True
    have CS: "DEFAULT_CHUNK_SIZE \<noteq> 0" by (simp add: DEFAULT_CHUNK_SIZE_def)
    from True have "unat k < unat n" by (simp add: word_less_nat_alt)
    moreover have "unat n < 2 ^ 64" using unsigned_less [of n, where ?'a = nat] by simp
    ultimately have "Suc (length vs) < 2 ^ 64" using "1.prems"(2) by simp
    from push_back_step [OF "1.prems"(1) CS this, of "ucast k"]
    obtain v1 h1 where st: "push_back DEFAULT_CHUNK_SIZE (ucast k) v h = Inr (v1, h1)"
      and inv1: "cv_inv DEFAULT_CHUNK_SIZE base v1 h1 (vs @ [ucast k])" by blast
    have k1: "unat (k + 1) = length (vs @ [ucast k])"
      using word_succ_lt [OF True] "1.prems"(2) by simp
    from "1.IH" [OF True st refl inv1 k1 word_succ_le [OF True]] True st
    show ?thesis by (subst fill_cv.simps) simp
  next
    case False
    with "1.prems"(3) have "k = n" by simp
    with False "1.prems" show ?thesis by (subst fill_cv.simps) auto
  qed
qed

lemma scan_cv_run:
  assumes "cv_inv DEFAULT_CHUNK_SIZE base v h vs"
  shows "\<exists>r. scan_cv v h k acc = Inr r"
  using assms
proof (induction v h k acc rule: scan_cv.induct)
  case (1 v h k acc)
  show ?case
  proof (cases "k < get_size v")
    case True
    have CS: "DEFAULT_CHUNK_SIZE \<noteq> 0" by (simp add: DEFAULT_CHUNK_SIZE_def)
    from "1.prems" have S: "unat (get_size v) = length vs"
      and con: "contents (unat DEFAULT_CHUNK_SIZE) (chunks v) h vs"
      by (simp_all add: cv_inv_def get_size_def)
    from True S have "unat k < length vs" by (simp add: word_less_nat_alt)
    from read_elem_word [OF con CS refl this]
    have rd: "subscript DEFAULT_CHUNK_SIZE k v h = Inr (vs ! unat k)" by (simp add: subscript_def)
    from "1.IH" [OF True rd "1.prems"] True rd show ?thesis by (subst scan_cv.simps) simp
  next
    case False
    then show ?thesis by (subst scan_cv.simps) simp
  qed
qed

lemma benchmarkChunkedVector_returns: "\<exists>h'. benchmarkChunkedVector n repeat h = Inr h'"
proof -
  have "\<exists>h'. benchmarkChunkedVector_loop n repeat i h = Inr h'" for i
  proof (induction n repeat i h rule: benchmarkChunkedVector_loop.induct)
    case (1 n repeat i h)
    show ?case
    proof (cases "i < scast repeat")
      case True
      from fill_cv_run [OF cv_inv_init, of 0 n h]
      obtain v h1 vs where fill: "fill_cv n 0 ChunkedVector_init h = Inr (v, h1)"
        and inv: "cv_inv DEFAULT_CHUNK_SIZE (length h) v h1 vs" by auto
      from scan_cv_run [OF inv, of 0 0] obtain r where scan: "scan_cv v h1 0 0 = Inr r" by blast
      from "1.IH" [OF True fill refl scan] True fill scan
      show ?thesis by (subst benchmarkChunkedVector_loop.simps) simp
    next
      case False
      then show ?thesis by (subst benchmarkChunkedVector_loop.simps) simp
    qed
  qed
  then show ?thesis by (simp add: benchmarkChunkedVector_def)
qed

lemma fill_pa_run:
  assumes "pa_inv DEFAULT_CHUNK_SIZE v h vs" "unat k = length vs" "k \<le> n"
  shows "\<exists>v' h' vs'. fill_pa n k v h = Inr (v', h') \<and>
           pa_inv DEFAULT_CHUNK_SIZE v' h' vs' \<and> length vs' = unat n"
  using assms
proof (induction n k v h arbitrary: vs rule: fill_pa.induct)
  case (1 n k v h)
  show ?case
  proof (cases "k < n")
    case True
    have CS: "DEFAULT_CHUNK_SIZE \<noteq> 0" "DEFAULT_CHUNK_SIZE \<le> 2048"
      by (simp_all add: DEFAULT_CHUNK_SIZE_def)
    from True have "unat k < unat n" by (simp add: word_less_nat_alt)
    moreover have "unat n < 2 ^ 64" using unsigned_less [of n, where ?'a = nat] by simp
    ultimately have "Suc (length vs) < 2 ^ 64" using "1.prems"(2) by simp
    from push_back_pa_step [OF "1.prems"(1) CS this, of "ucast k"]
    obtain v1 h1 where st: "push_back_pa DEFAULT_CHUNK_SIZE (ucast k) v h = Inr (v1, h1)"
      and inv1: "pa_inv DEFAULT_CHUNK_SIZE v1 h1 (vs @ [ucast k])" by blast
    have k1: "unat (k + 1) = length (vs @ [ucast k])"
      using word_succ_lt [OF True] "1.prems"(2) by simp
    from "1.IH" [OF True st refl inv1 k1 word_succ_le [OF True]] True st
    show ?thesis by (subst fill_pa.simps) simp
  next
    case False
    with "1.prems"(3) have "k = n" by simp
    with False "1.prems" show ?thesis by (subst fill_pa.simps) auto
  qed
qed

lemma scan_pa_run:
  assumes "pa_inv DEFAULT_CHUNK_SIZE v h vs"
  shows "\<exists>r. scan_pa v h k acc = Inr r"
  using assms
proof (induction v h k acc rule: scan_pa.induct)
  case (1 v h k acc)
  show ?case
  proof (cases "k < get_size_pa v")
    case True
    have CS: "DEFAULT_CHUNK_SIZE \<noteq> 0" by (simp add: DEFAULT_CHUNK_SIZE_def)
    from "1.prems" have S: "unat (get_size_pa v) = length vs"
      and con: "contents (unat DEFAULT_CHUNK_SIZE) (chunks_pa v) h vs"
      by (simp_all add: pa_inv_def get_size_pa_def)
    from True S have "unat k < length vs" by (simp add: word_less_nat_alt)
    from read_elem_word [OF con CS refl this]
    have rd: "subscript_pa DEFAULT_CHUNK_SIZE k v h = Inr (vs ! unat k)"
      by (simp add: subscript_pa_def)
    from "1.IH" [OF True rd "1.prems"] True rd show ?thesis by (subst scan_pa.simps) simp
  next
    case False
    then show ?thesis by (subst scan_pa.simps) simp
  qed
qed

lemma benchmarkChunkedVectorPooled_returns:
  "\<exists>h'. benchmarkChunkedVectorPooled n repeat h = Inr h'"
proof -
  have "\<exists>h'. benchmarkChunkedVectorPooled_loop n repeat i h = Inr h'" for i
  proof (induction n repeat i h rule: benchmarkChunkedVectorPooled_loop.induct)
    case (1 n repeat i h)
    show ?case
    proof (cases "i < repeat")
      case True
      obtain v0 h0 where init: "ChunkedVectorPoolAllocation_init h = (v0, h0)"
        by (cases "ChunkedVectorPoolAllocation_init h")
      with pa_inv_init [of DEFAULT_CHUNK_SIZE h]
      have inv0: "pa_inv DEFAULT_CHUNK_SIZE v0 h0 []" by simp
      from fill_pa_run [OF inv0, of 0 n]
      obtain v h1 vs where fill: "fill_pa n 0 v0 h0 = Inr (v, h1)"
        and inv: "pa_inv DEFAULT_CHUNK_SIZE v h1 vs" by auto
      from scan_pa_run [OF inv, of 0 0] obtain r where scan: "scan_pa v h1 0 0 = Inr r" by blast
      from "1.IH" [OF True init [symmetric] fill refl scan] True init fill scan
      show ?thesis by (subst benchmarkChunkedVectorPooled_loop.simps) simp
    next
      case False
      then show ?thesis by (subst benchmarkChunkedVectorPooled_loop.simps) simp
    qed
  qed
  then show ?thesis by (simp add: benchmarkChunkedVectorPooled_def)
qed

text \<open>
  C7. Not every driver runs to completion: \<^verbatim>\<open>benchmarkStdVector(5000000)\<close>, the first
  call of \<^verbatim>\<open>main\<close>, reads \<^verbatim>\<open>v[5000000]\<close> of a vector of 5000000 elements in its first
  scan and never returns normally, so \<^verbatim>\<open>main\<close> does not reach \<^verbatim>\<open>return 0\<close>, whatever the
  bound \<^verbatim>\<open>repeat\<close> of \<^verbatim>\<open>benchmarkChunkedVectorPooled\<close> stands for.
\<close>

theorem main_never_returns_0:
  "benchmarkStdVector 5000000 5 = Some (Inl OutOfBounds) \<and>
   main_cpp repeat = Some (Inl OutOfBounds)"
proof -
  have "benchmarkStdVector 5000000 5 = Some (Inl OutOfBounds)"
    by (rule benchmarkStdVector_overruns) simp_all
  then show ?thesis by (simp add: main_cpp_def)
qed

section \<open>The particle layouts\<close>

lemma init_agree:
  assumes "i \<le> n" "length ps = i" "soa_size n s" "agree_upto widen i ps s"
  shows "length (fst (init_AoS dist widen n i rng ps)) = n \<and>
         soa_size n (fst (init_SoA dist n i rng s)) \<and>
         snd (init_AoS dist widen n i rng ps) = snd (init_SoA dist n i rng s) \<and>
         agree_upto widen n (fst (init_AoS dist widen n i rng ps)) (fst (init_SoA dist n i rng s))"
  using assms
proof (induction "n - i" arbitrary: i rng ps s)
  case 0
  then have "i = n" by simp
  with 0 show ?case by simp
next
  case (Suc d)
  then have lt: "i < n" by simp
  obtain a r1 where d1: "dist rng = (a, r1)" by (cases "dist rng")
  obtain b r2 where d2: "dist r1 = (b, r2)" by (cases "dist r1")
  obtain c r3 where d3: "dist r2 = (c, r3)" by (cases "dist r2")
  obtain e r4 where d4: "dist r3 = (e, r4)" by (cases "dist r3")
  let ?ps = "ps @ [\<lparr>x_aos = a, y_aos = b, z_aos = c, mass_aos = widen e\<rparr>]"
  let ?s = "s\<lparr>x_soa := (x_soa s)[i := a], y_soa := (y_soa s)[i := b],
               z_soa := (z_soa s)[i := c], mass_soa := (mass_soa s)[i := e]\<rparr>"
  have stepA: "init_AoS dist widen n i rng ps = init_AoS dist widen n (Suc i) r4 ?ps"
    using lt d1 d2 d3 d4 by (subst init_AoS.simps) simp
  have stepS: "init_SoA dist n i rng s = init_SoA dist n (Suc i) r4 ?s"
    using lt d1 d2 d3 d4 by (subst init_SoA.simps) simp
  have "d = n - Suc i" using Suc.hyps(2) by simp
  moreover have "Suc i \<le> n" using lt by simp
  moreover have "length ?ps = Suc i" using Suc.prems(2) by simp
  moreover have "soa_size n ?s" using Suc.prems(3) by (simp add: soa_size_def)
  moreover have "agree_upto widen (Suc i) ?ps ?s"
    using Suc.prems(2,3,4) lt
    by (auto simp: agree_upto_def soa_size_def nth_append less_Suc_eq)
  ultimately show ?case unfolding stepA stepS by (rule Suc.hyps(1))
qed

text \<open>
  C9, as the code has it. Initialised from the same engine state with the same
  distribution, the two layouts hold the same \<^verbatim>\<open>float\<close> in \<open>x\<close>, \<open>y\<close> and \<open>z\<close> at every
  index. The separated layout stores \<open>mass\<close> as a \<^verbatim>\<open>float\<close> too (four single-precision
  arrays); the interleaved record stores \<open>mass\<close> as a \<^verbatim>\<open>double\<close>, which is the conversion
  of the \<^verbatim>\<open>float\<close> the separated layout holds at that index.
\<close>

theorem layouts_agree_up_to_widening:
  "length (fst (benchmarkAoS_init dist widen seeded n)) = n \<and>
   map x_aos (fst (benchmarkAoS_init dist widen seeded n)) = x_soa (fst (benchmarkSoA_init dist seeded n)) \<and>
   map y_aos (fst (benchmarkAoS_init dist widen seeded n)) = y_soa (fst (benchmarkSoA_init dist seeded n)) \<and>
   map z_aos (fst (benchmarkAoS_init dist widen seeded n)) = z_soa (fst (benchmarkSoA_init dist seeded n)) \<and>
   map mass_aos (fst (benchmarkAoS_init dist widen seeded n))
     = map widen (mass_soa (fst (benchmarkSoA_init dist seeded n)))"
proof -
  let ?aos = "fst (benchmarkAoS_init dist widen seeded n)"
  let ?soa = "fst (benchmarkSoA_init dist seeded n)"
  have "soa_size n (ParticlesSoA_init n)" by (simp add: soa_size_def ParticlesSoA_init_def)
  moreover have "agree_upto widen 0 [] (ParticlesSoA_init n)" by (simp add: agree_upto_def)
  ultimately have r: "length ?aos = n" "soa_size n ?soa" "agree_upto widen n ?aos ?soa"
    using init_agree [of 0 n "[]" "ParticlesSoA_init n" widen dist seeded]
    by (simp_all add: benchmarkAoS_init_def benchmarkSoA_init_def)
  then show ?thesis
    by (auto simp: soa_size_def agree_upto_def intro!: nth_equalityI)
qed

text \<open>
  With a generator that counts up from the seed, one particle: \<open>mass\<close> is a 64-bit value in
  the interleaved record and a 32-bit value in the separated layout.
\<close>

theorem soa_mass_single_precision:
  "size (mass_aos (fst (benchmarkAoS_init (\<lambda>g :: float32. (g, g + 1)) ucast 123 1) ! 0)) = 64 \<and>
   size (mass_soa (fst (benchmarkSoA_init (\<lambda>g :: float32. (g, g + 1)) 123 1)) ! 0) = 32"
  by (simp add: word_size)

end
